theory Spec2Isabelle
  imports Main "HOL-Library.Signed_Division"
begin

section \<open>The FIFO object and its environment\<close>

text \<open>
  The repository holds several revisions of one C file. Two of them are modelled here:
  \<^item> \<^verbatim>\<open>part_002\<close>, the dated revision with the author's own tests
    (\<open>fifo_new\<close>, \<open>fifo_free\<close>, \<open>fifo_push\<close>, \<open>fifo_pull\<close> below);
  \<^item> \<^verbatim>\<open>part_001\<close>, the revision that has the occupancy query \<open>fifo_filled\<close>
    (\<open>fifo_new_p1\<close>, \<open>fifo_free_p1\<close>, \<open>fifo_filled\<close>, \<open>fifo_push_p1\<close>,
    \<open>fifo_pull_p1\<close> below).

  \<^verbatim>\<open>struct fifo { int size; int empty; int produce; int consume; char *contents[]; }\<close>
  becomes a record. The fields \<open>size\<close> and \<open>empty\<close> carry the suffix \<open>_f\<close>, since HOL has
  constants of these names. A slot is \<open>None\<close> for the null pointer and \<open>Some s\<close> for a
  pointer to an owned string whose characters (before the terminating NUL) are \<open>s\<close>. The
  length of \<open>contents\<close> is the number of slots that were allocated behind the struct.

  The C \<open>int\<close>s are modelled as \<open>int\<close>: in every state the operations produce from a
  constructed buffer all indices stay in \<open>[0, size)\<close>, so no arithmetic of the code
  leaves the range of a C \<open>int\<close>.
\<close>

record fifo =
  size_f :: int
  empty_f :: int
  produce :: int
  consume :: int
  contents :: "string option list"

text \<open>
  What the C code does where the language gives it no meaning: a slot access outside the
  allocated slots, \<open>%\<close> with divisor zero, and writing through a null pointer.
\<close>

datatype fault = OutOfBounds int | DivByZero | NullDeref

text \<open>
  The allocator is the list of the outcomes of the \<open>calloc\<close> calls still to come
  (\<open>True\<close>: a block is handed out); every call consumes one outcome, and an exhausted
  allocator fails. An operation that leaves the list unchanged has not called \<open>calloc\<close>.
\<close>

type_synonym allocator = "bool list"

fun calloc :: "allocator \<Rightarrow> bool \<times> allocator" where
  "calloc [] = (False, [])"
| "calloc (b # bs) = (b, bs)"

text \<open>
  The copy a push makes: \<open>str_sz = strlen(str) + 1\<close>, a zeroed block of \<open>str_sz\<close>
  bytes, \<open>memcpy(str_cpy, str, str_sz)\<close>. A string with characters \<open>s\<close> occupies the
  bytes \<open>s\<close> followed by NUL; \<open>strlen\<close> counts the bytes before the first NUL, and the
  characters of the copy are those before its first NUL.
\<close>

definition NUL :: char where
  "NUL = CHR 0x00"

definition c_bytes :: "string \<Rightarrow> string" where
  "c_bytes s = s @ [NUL]"

definition c_chars :: "string \<Rightarrow> string" where
  "c_chars bs = takeWhile (\<lambda>b. b \<noteq> NUL) bs"

definition strlen :: "string \<Rightarrow> nat" where
  "strlen bs = length (takeWhile (\<lambda>b. b \<noteq> NUL) bs)"

definition memcpy :: "string \<Rightarrow> string \<Rightarrow> nat \<Rightarrow> string" where
  "memcpy dst src n = take n src @ drop n dst"

definition str_cpy :: "string \<Rightarrow> string" where
  "str_cpy s =
     (let str_sz = strlen (c_bytes s) + 1
      in c_chars (memcpy (replicate str_sz NUL) (c_bytes s) str_sz))"

text \<open>\<open>fifo->contents[i]\<close> is inside the allocated slots.\<close>

definition slot_ok :: "fifo \<Rightarrow> int \<Rightarrow> bool" where
  "slot_ok f i \<longleftrightarrow> 0 \<le> i \<and> nat i < length (contents f)"

section \<open>Revision part_002\<close>

text \<open>
  \<open>fifo_new\<close>: a negative size returns NULL before any allocation; a failed \<open>calloc\<close>
  returns NULL; otherwise the zeroed object with \<open>size\<close> set and
  \<open>empty = (size > 0) ? 1 : 0\<close>.
\<close>

definition fifo_new :: "allocator \<Rightarrow> int \<Rightarrow> fifo option \<times> allocator" where
  "fifo_new a sz =
     (if sz < 0 then (None, a)
      else case calloc a of
        (False, a') \<Rightarrow> (None, a')
      | (True, a') \<Rightarrow>
          (Some \<lparr>size_f = sz, empty_f = (if sz > 0 then 1 else 0), produce = 0, consume = 0,
                 contents = replicate (nat sz) None\<rparr>, a'))"

text \<open>
  \<open>fifo_push\<close> returns the value of \<open>space\<close>, the object behind the pointer and the
  allocator. C's \<open>%\<close> truncates, which is \<open>smod\<close>; its divisor is checked first.
\<close>

fun fifo_push :: "allocator \<Rightarrow> fifo option \<Rightarrow> string option \<Rightarrow> fault + (int \<times> fifo option \<times> allocator)" where
  "fifo_push a None str = Inr (0, None, a)"
| "fifo_push a (Some f) str =
     (let space = (if consume f \<noteq> produce f \<or>
                      (size_f f > 0 \<and> consume f = produce f \<and> empty_f f = 1)
                   then 1 else 0 :: int)
      in case str of
           None \<Rightarrow> Inr (space, Some f, a)
         | Some s \<Rightarrow>
             if space \<le> 0 then Inr (space, Some f, a)
             else (case calloc a of
                 (False, a') \<Rightarrow> Inr (space, Some f, a')
               | (True, a') \<Rightarrow>
                   if \<not> slot_ok f (produce f) then Inl (OutOfBounds (produce f))
                   else if size_f f = 0 then Inl DivByZero
                   else Inr (space,
                     Some (f\<lparr>contents := (contents f)[nat (produce f) := Some (str_cpy s)],
                             produce := (produce f + 1) smod size_f f,
                             empty_f := (if empty_f f = 1 then 0 else empty_f f)\<rparr>),
                     a')))"

text \<open>
  \<open>fifo_pull\<close> returns the pointer read from the slot and the object behind the
  pointer. The divisor of its \<open>%\<close> is not zero: \<open>size == 0\<close> returns before.
\<close>

fun fifo_pull :: "fifo option \<Rightarrow> fault + (string option \<times> fifo option)" where
  "fifo_pull None = Inr (None, None)"
| "fifo_pull (Some f) =
     (let space = (if (consume f = produce f \<and> empty_f f = 1) \<or> size_f f = 0
                   then 0 else 1 :: int)
      in if space \<le> 0 then Inr (None, Some f)
         else if \<not> slot_ok f (consume f) then Inl (OutOfBounds (consume f))
         else
           let c' = (consume f + 1) smod size_f f
           in Inr (contents f ! nat (consume f),
                   Some (f\<lparr>contents := (contents f)[nat (consume f) := None],
                           consume := c',
                           empty_f := (if c' = produce f then 1 else empty_f f)\<rparr>)))"

text \<open>
  The loop of \<open>fifo_free\<close>, with the slots it has passed to \<open>free\<close> so far, in order.
  It need not terminate on an arbitrary object, so not returning is the value \<open>None\<close>.
  After the loop the code zeroes and frees the object itself; the result is the list of
  freed slots.
\<close>

partial_function (option) free_loop :: "fifo \<Rightarrow> int \<Rightarrow> int \<Rightarrow> int \<Rightarrow> int list \<Rightarrow> (fault + int list) option" where
  "free_loop f cur end' e freed =
     (if cur \<noteq> end' \<or> e = 0 then
        if \<not> slot_ok f cur then Some (Inl (OutOfBounds cur))
        else
          let freed' = (if contents f ! nat cur \<noteq> None then freed @ [cur] else freed)
          in if size_f f = 0 then Some (Inl DivByZero)
             else
               let cur' = (cur + 1) smod size_f f
               in free_loop f cur' end' (if cur' = end' then 1 else e) freed'
      else Some (Inr freed))"

declare free_loop.simps [code]

fun fifo_free :: "fifo option \<Rightarrow> (fault + int list) option" where
  "fifo_free None = Some (Inr [])"
| "fifo_free (Some f) =
     (if consume f = produce f \<and> empty_f f = 0
      then free_loop f 0 0 (empty_f f) []
      else free_loop f (consume f) (produce f) (empty_f f) [])"

section \<open>Revision part_001\<close>

definition fifo_new_p1 :: "allocator \<Rightarrow> int \<Rightarrow> fifo option \<times> allocator" where
  "fifo_new_p1 a sz =
     (if sz < 0 then (None, a)
      else case calloc a of
        (False, a') \<Rightarrow> (None, a')
      | (True, a') \<Rightarrow>
          (Some \<lparr>size_f = sz, empty_f = 1, produce = 0, consume = 0,
                 contents = replicate (nat sz) None\<rparr>, a'))"

text \<open>\<open>fifo_filled\<close> reads three indices and the flag; NULL gives \<open>-1\<close>.\<close>

fun fifo_filled :: "fifo option \<Rightarrow> int" where
  "fifo_filled None = - 1"
| "fifo_filled (Some f) =
     (if produce f > consume f then produce f - consume f
      else if produce f < consume f then size_f f - consume f + produce f
      else if empty_f f = 1 then 0 else size_f f)"

text \<open>
  In this revision \<open>fifo->contents == NULL\<close> is part of the first test; \<open>contents\<close> is
  an array inside the object, so the test is that of the pointer alone. The result of
  \<open>calloc\<close> is not tested: \<open>memcpy\<close> writes through it.
\<close>

fun fifo_push_p1 :: "allocator \<Rightarrow> fifo option \<Rightarrow> string option \<Rightarrow> fault + (int \<times> fifo option \<times> allocator)" where
  "fifo_push_p1 a None str = Inr (0, None, a)"
| "fifo_push_p1 a (Some f) str =
     (let space = size_f f - fifo_filled (Some f)
      in case str of
           None \<Rightarrow> Inr (space, Some f, a)
         | Some s \<Rightarrow>
             if space \<le> 0 \<or> (space = size_f f \<and> empty_f f = 0) then Inr (0, Some f, a)
             else (case calloc a of
                 (False, a') \<Rightarrow> Inl NullDeref
               | (True, a') \<Rightarrow>
                   if \<not> slot_ok f (produce f) then Inl (OutOfBounds (produce f))
                   else if size_f f = 0 then Inl DivByZero
                   else Inr (space,
                     Some (f\<lparr>contents := (contents f)[nat (produce f) := Some (str_cpy s)],
                             produce := (produce f + 1) smod size_f f,
                             empty_f := 0\<rparr>),
                     a')))"

fun fifo_pull_p1 :: "fifo option \<Rightarrow> fault + (string option \<times> fifo option)" where
  "fifo_pull_p1 None = Inr (None, None)"
| "fifo_pull_p1 (Some f) =
     (let space = fifo_filled (Some f)
      in if space \<le> 0 then Inr (None, Some f)
         else if \<not> slot_ok f (consume f) then Inl (OutOfBounds (consume f))
         else if size_f f = 0 then Inl DivByZero
         else
           let c' = (consume f + 1) smod size_f f
           in Inr (contents f ! nat (consume f),
                   Some (f\<lparr>contents := (contents f)[nat (consume f) := None],
                           consume := c',
                           empty_f := (if c' = produce f then 1 else empty_f f)\<rparr>)))"

text \<open>\<open>fifo_free\<close> of this revision runs the same loop.\<close>

fun fifo_free_p1 :: "fifo option \<Rightarrow> (fault + int list) option" where
  "fifo_free_p1 None = Some (Inr [])"
| "fifo_free_p1 (Some f) =
     (if consume f = produce f \<and> empty_f f = 0
      then free_loop f 0 0 (empty_f f) []
      else free_loop f (consume f) (produce f) (empty_f f) [])"

section \<open>Sequences of operations\<close>

text \<open>
  A caller's sequence of pushes and pulls on one buffer, with what each call returned.
  A fault ends the run, as it ends the process.
\<close>

datatype op = Push "string option" | Pull

datatype ret = PushRet int | PullRet "string option"

fun run :: "op list \<Rightarrow> allocator \<Rightarrow> fifo option \<Rightarrow> fault + ((op \<times> ret) list \<times> fifo option \<times> allocator)" where
  "run [] a p = Inr ([], p, a)"
| "run (Push str # ops) a p =
     (case fifo_push a p str of
        Inl e \<Rightarrow> Inl e
      | Inr (r, p', a') \<Rightarrow>
          (case run ops a' p' of
             Inl e \<Rightarrow> Inl e
           | Inr (tr, p'', a'') \<Rightarrow> Inr ((Push str, PushRet r) # tr, p'', a'')))"
| "run (Pull # ops) a p =
     (case fifo_pull p of
        Inl e \<Rightarrow> Inl e
      | Inr (r, p') \<Rightarrow>
          (case run ops a p' of
             Inl e \<Rightarrow> Inl e
           | Inr (tr, p'', a'') \<Rightarrow> Inr ((Pull, PullRet r) # tr, p'', a'')))"

definition session :: "allocator \<Rightarrow> int \<Rightarrow> op list \<Rightarrow> fault + ((op \<times> ret) list \<times> fifo option \<times> allocator)" where
  "session a c ops = (case fifo_new a c of (p, a') \<Rightarrow> run ops a' p)"

fun run_p1 :: "op list \<Rightarrow> allocator \<Rightarrow> fifo option \<Rightarrow> fault + ((op \<times> ret) list \<times> fifo option \<times> allocator)" where
  "run_p1 [] a p = Inr ([], p, a)"
| "run_p1 (Push str # ops) a p =
     (case fifo_push_p1 a p str of
        Inl e \<Rightarrow> Inl e
      | Inr (r, p', a') \<Rightarrow>
          (case run_p1 ops a' p' of
             Inl e \<Rightarrow> Inl e
           | Inr (tr, p'', a'') \<Rightarrow> Inr ((Push str, PushRet r) # tr, p'', a'')))"
| "run_p1 (Pull # ops) a p =
     (case fifo_pull_p1 p of
        Inl e \<Rightarrow> Inl e
      | Inr (r, p') \<Rightarrow>
          (case run_p1 ops a p' of
             Inl e \<Rightarrow> Inl e
           | Inr (tr, p'', a'') \<Rightarrow> Inr ((Pull, PullRet r) # tr, p'', a'')))"

definition session_p1 :: "allocator \<Rightarrow> int \<Rightarrow> op list \<Rightarrow> fault + ((op \<times> ret) list \<times> fifo option \<times> allocator)" where
  "session_p1 a c ops = (case fifo_new_p1 a c of (p, a') \<Rightarrow> run_p1 ops a' p)"

text \<open>
  The successful pushes and pulls of a run: a push of a string that returned non-zero,
  a pull that returned a string.
\<close>

fun pushed :: "op \<times> ret \<Rightarrow> bool" where
  "pushed (Push (Some s), PushRet r) = (r \<noteq> 0)"
| "pushed _ = False"

fun pulled :: "op \<times> ret \<Rightarrow> bool" where
  "pulled (Pull, PullRet (Some s)) = True"
| "pulled _ = False"

section \<open>What a buffer holds\<close>

text \<open>
  The occupancy is the number of populated slots, counted on the slot array. The queue is
  the strings of the populated slots from \<open>consume\<close> onwards, wrapping around.
\<close>

definition occupancy :: "fifo \<Rightarrow> int" where
  "occupancy f = int (length (filter (\<lambda>s. s \<noteq> None) (contents f)))"

definition queue :: "fifo \<Rightarrow> string list" where
  "queue f = map the (takeWhile (\<lambda>s. s \<noteq> None) (rotate (nat (consume f)) (contents f)))"

text \<open>Slot \<open>i\<close> holds a string.\<close>

definition live :: "fifo \<Rightarrow> int \<Rightarrow> bool" where
  "live f i \<longleftrightarrow> contents f ! nat i \<noteq> None"

text \<open>
  \<open>rep f q\<close>: the object \<open>f\<close> of positive size holds exactly the strings \<open>q\<close>, oldest
  first, in the slots from \<open>consume\<close> onwards, every other slot is null, \<open>produce\<close> is
  the slot after the last of them, and the flag is 1 exactly when there are none.
\<close>

definition rep :: "fifo \<Rightarrow> string list \<Rightarrow> bool" where
  "rep f q \<longleftrightarrow>
     0 < size_f f \<and> length (contents f) = nat (size_f f) \<and>
     0 \<le> consume f \<and> consume f < size_f f \<and>
     int (length q) \<le> size_f f \<and>
     produce f = (consume f + int (length q)) mod size_f f \<and>
     empty_f f = (if q = [] then 1 else 0) \<and>
     rotate (nat (consume f)) (contents f) =
       map Some q @ replicate (nat (size_f f) - length q) None"

text \<open>The only object of size 0 either revision produces, with its flag.\<close>

definition fifo0 :: "int \<Rightarrow> fifo" where
  "fifo0 e = \<lparr>size_f = 0, empty_f = e, produce = 0, consume = 0, contents = []\<rparr>"

definition inv :: "fifo \<Rightarrow> bool" where
  "inv f \<longleftrightarrow> f = fifo0 0 \<or> rep f (queue f)"

definition inv_p1 :: "fifo \<Rightarrow> bool" where
  "inv_p1 f \<longleftrightarrow> f = fifo0 1 \<or> rep f (queue f)"

text \<open>
  The object after a push has stored a copy of \<open>s\<close>, and after a pull has taken the
  string at \<open>consume\<close>: the updates of \<open>fifo_push\<close> and \<open>fifo_pull\<close>.
\<close>

definition stored :: "fifo \<Rightarrow> string \<Rightarrow> fifo" where
  "stored f s = f\<lparr>contents := (contents f)[nat (produce f) := Some (str_cpy s)],
                  produce := (produce f + 1) smod size_f f,
                  empty_f := (if empty_f f = 1 then 0 else empty_f f)\<rparr>"

definition taken :: "fifo \<Rightarrow> fifo" where
  "taken f = f\<lparr>contents := (contents f)[nat (consume f) := None],
               consume := (consume f + 1) smod size_f f,
               empty_f := (if (consume f + 1) smod size_f f = produce f then 1 else empty_f f)\<rparr>"

text \<open>What a call returns when it does nothing: 0 from a push, NULL from a pull.\<close>

fun refused :: "op \<Rightarrow> op \<times> ret" where
  "refused (Push str) = (Push str, PushRet 0)"
| "refused Pull = (Pull, PullRet None)"

section \<open>Strings, indices and rotation\<close>

lemma takeWhile_not_NUL: "NUL \<notin> set s \<Longrightarrow> takeWhile (\<lambda>b. b \<noteq> NUL) (s @ t) = s @ takeWhile (\<lambda>b. b \<noteq> NUL) t"
  by (induction s) auto

lemma str_cpy_chars: "NUL \<notin> set s \<Longrightarrow> str_cpy s = s"
  by (simp add: str_cpy_def strlen_def c_bytes_def c_chars_def memcpy_def Let_def
      takeWhile_not_NUL)

lemma smod_nonneg: "0 \<le> a \<Longrightarrow> 0 < b \<Longrightarrow> a smod b = a mod (b::int)"
  by (simp add: smod_int_alt_def sgn_if)

lemma length_filter_rotate1: "length (filter P (rotate1 xs)) = length (filter P xs)"
  by (cases xs) auto

lemma length_filter_rotate: "length (filter P (rotate n xs)) = length (filter P xs)"
  by (induction n) (simp_all add: length_filter_rotate1)

lemma mod_shift_le:
  fixes i k m n :: nat
  assumes "i \<le> k" "k < n" "(m + i) mod n = (m + k) mod n"
  shows "i = k"
proof -
  have "m + i \<le> m + k" using assms by simp
  from mod_eq_dvd_iff_nat [OF this, of n] assms
  have "n dvd (m + k) - (m + i)" by simp
  then have "n dvd k - i" by simp
  moreover have "k - i < n" using assms by simp
  ultimately have "k - i = 0"
    using nat_dvd_not_less by blast
  with assms show ?thesis by simp
qed

lemma mod_shift_inj:
  fixes i k m n :: nat
  assumes "i < n" "k < n"
  shows "(m + i) mod n = (m + k) mod n \<longleftrightarrow> i = k"
proof
  assume eq: "(m + i) mod n = (m + k) mod n"
  show "i = k"
  proof (cases "i \<le> k")
    case True
    with assms eq show ?thesis by (simp add: mod_shift_le)
  next
    case False
    then have "k \<le> i" by simp
    from mod_shift_le [OF this assms(1) eq [symmetric]] show ?thesis by simp
  qed
qed simp

lemma rotate_update:
  assumes "k < length xs"
  shows "rotate m (xs[(m + k) mod length xs := x]) = (rotate m xs)[k := x]"
proof (rule nth_equalityI)
  show "length (rotate m (xs[(m + k) mod length xs := x])) = length ((rotate m xs)[k := x])"
    by simp
next
  fix i assume "i < length (rotate m (xs[(m + k) mod length xs := x]))"
  then have i: "i < length xs" by simp
  have inj: "(m + i) mod length xs = (m + k) mod length xs \<longleftrightarrow> i = k"
    using i assms by (rule mod_shift_inj)
  have "0 < length xs" using assms by linarith
  then have lt: "(m + k) mod length xs < length xs"
    by simp
  show "rotate m (xs[(m + k) mod length xs := x]) ! i = (rotate m xs)[k := x] ! i"
    using i assms inj lt by (auto simp: nth_rotate nth_list_update)
qed

lemma takeWhile_Some_None:
  "takeWhile (\<lambda>s. s \<noteq> None) (map Some q @ replicate r None) = map Some q"
  by (induction q) auto

lemma rep_queue: "rep f q \<Longrightarrow> queue f = q"
  by (simp add: rep_def queue_def takeWhile_Some_None comp_def del: not_None_eq)

lemma filter_Some_None:
  "filter (\<lambda>s. s \<noteq> None) (map Some q @ replicate r None) = map Some q"
  by (induction q) auto

lemma rep_occupancy: 
  assumes "rep f q" shows "occupancy f = int (length q)"
proof -
  have "length (filter (\<lambda>s. s \<noteq> None) (contents f)) =
        length (filter (\<lambda>s. s \<noteq> None) (rotate (nat (consume f)) (contents f)))"
    by (simp add: length_filter_rotate)
  also have "\<dots> = length q"
    using assms by (simp add: rep_def filter_Some_None)
  finally show ?thesis by (simp add: occupancy_def)
qed


lemma replicate_update0:
  "0 < r \<Longrightarrow> (replicate r None)[0 := Some x] = Some x # replicate (r - 1) None"
  by (cases r) simp_all

lemma int_mod_nat:
  "0 \<le> c \<Longrightarrow> 0 < n \<Longrightarrow> nat ((c + int k) mod n) = (nat c + k) mod nat n"
  by (simp add: nat_mod_distrib nat_add_distrib)

lemma rep_push_slots:
  assumes "rep f q" "int (length q) < size_f f"
  shows "rotate (nat (consume f)) ((contents f)[nat (produce f) := Some x]) =
         map Some (q @ [x]) @ replicate (nat (size_f f) - length (q @ [x])) None"
proof -
  let ?n = "nat (size_f f)"
  have len: "length (contents f) = ?n" and k: "length q < length (contents f)"
    using assms by (simp_all add: rep_def)
  have p: "nat (produce f) = (nat (consume f) + length q) mod length (contents f)"
    using assms by (simp add: rep_def int_mod_nat)
  have "rotate (nat (consume f)) ((contents f)[nat (produce f) := Some x]) =
        (rotate (nat (consume f)) (contents f))[length q := Some x]"
    unfolding p using k by (rule rotate_update)
  also have "\<dots> = (map Some q @ replicate (?n - length q) None)[length q := Some x]"
    using assms by (simp add: rep_def)
  also have "\<dots> = map Some q @ (replicate (?n - length q) None)[0 := Some x]"
    by (simp add: list_update_append)
  also have "\<dots> = map Some q @ Some x # replicate (?n - length q - 1) None"
    using k len by (simp add: replicate_update0)
  finally show ?thesis by simp
qed

lemma rep_indices:
  assumes "rep f q"
  shows "0 \<le> produce f" "produce f < size_f f" "0 \<le> consume f" "consume f < size_f f"
    "slot_ok f (produce f)" "slot_ok f (consume f)"
  using assms by (simp_all add: rep_def slot_ok_def)

lemma mod_once:
  fixes c k n :: int
  assumes "0 \<le> c" "c < n" "0 \<le> k" "k \<le> n"
  shows "(c + k) mod n = (if c + k < n then c + k else c + k - n)"
proof (cases "c + k < n")
  case True
  with assms show ?thesis by simp
next
  case False
  have "(c + k) mod n = (c + k - n) mod n"
    by (rule mod_pos_geq) (use assms False in linarith)+
  also have "\<dots> = c + k - n"
    by (rule mod_pos_pos_trivial) (use assms False in linarith)+
  finally show ?thesis using False by simp
qed

lemma rep_produce:
  assumes "rep f q"
  shows "produce f = (if consume f + int (length q) < size_f f
                      then consume f + int (length q)
                      else consume f + int (length q) - size_f f)"
  using assms by (simp only: rep_def mod_once of_nat_0_le_iff)

lemma rep_produce_eq:
  assumes "rep f q"
  shows "produce f = consume f \<longleftrightarrow> q = [] \<or> int (length q) = size_f f"
proof -
  have "0 \<le> consume f" "consume f < size_f f" "int (length q) \<le> size_f f"
    using assms by (simp_all add: rep_def)
  moreover have "q = [] \<longleftrightarrow> int (length q) = 0" by simp
  ultimately show ?thesis
    unfolding rep_produce [OF assms] by (auto split: if_splits)
qed

section \<open>The representation invariant\<close>

lemma repI:
  assumes "0 < size_f f" "length (contents f) = nat (size_f f)"
    "0 \<le> consume f" "consume f < size_f f" "int (length q) \<le> size_f f"
    "produce f = (consume f + int (length q)) mod size_f f"
    "empty_f f = (if q = [] then 1 else 0)"
    "rotate (nat (consume f)) (contents f) =
       map Some q @ replicate (nat (size_f f) - length q) None"
  shows "rep f q"
  unfolding rep_def using assms by blast

lemma rep_size: "rep f q \<Longrightarrow> 0 < size_f f"
  and rep_length: "rep f q \<Longrightarrow> length (contents f) = nat (size_f f)"
  and rep_bound: "rep f q \<Longrightarrow> int (length q) \<le> size_f f"
  and rep_produce_mod: "rep f q \<Longrightarrow> produce f = (consume f + int (length q)) mod size_f f"
  and rep_flag: "rep f q \<Longrightarrow> empty_f f = (if q = [] then 1 else 0)"
  and rep_slots: "rep f q \<Longrightarrow> rotate (nat (consume f)) (contents f) =
       map Some q @ replicate (nat (size_f f) - length q) None"
  unfolding rep_def by blast+

lemma rep_pull_slots:
  assumes "rep f (x # q)"
  shows "rotate (nat ((consume f + 1) mod size_f f)) ((contents f)[nat (consume f) := None]) =
         map Some q @ replicate (nat (size_f f) - length q) None"
proof -
  let ?n = "nat (size_f f)" and ?c = "nat (consume f)" and ?cs = "contents f"
  have len: "length ?cs = ?n" by (rule rep_length [OF assms])
  have n: "0 < size_f f" by (rule rep_size [OF assms])
  have c0: "0 \<le> consume f" by (rule rep_indices(3) [OF assms])
  have c: "?c < length ?cs" using rep_indices(4) [OF assms] c0 len by simp
  have pos: "0 < length ?cs" using c by linarith
  have l: "Suc (length q) \<le> ?n" using rep_bound [OF assms] by simp
  have c': "nat ((consume f + 1) mod size_f f) = Suc ?c mod length ?cs"
    using int_mod_nat [OF c0 n, of 1] len by simp
  have "?cs[?c := None] = ?cs[(?c + 0) mod length ?cs := None]"
    using c by simp
  also have "rotate ?c \<dots> = (rotate ?c ?cs)[0 := None]"
    using pos by (rule rotate_update)
  also have "\<dots> = None # map Some q @ replicate (?n - Suc (length q)) None"
    by (simp add: rep_slots [OF assms])
  finally have r: "rotate ?c (?cs[?c := None]) =
      None # map Some q @ replicate (?n - Suc (length q)) None" .
  have "rotate (Suc ?c mod length ?cs) (?cs[?c := None]) = rotate (Suc ?c) (?cs[?c := None])"
    using rotate_conv_mod [of "Suc ?c" "?cs[?c := None]"] by simp
  also have "\<dots> = rotate1 (rotate ?c (?cs[?c := None]))"
    by simp
  also have "\<dots> = map Some q @ replicate (?n - Suc (length q)) None @ [None]"
    by (simp add: r)
  also have "replicate (?n - Suc (length q)) None @ [None] =
      replicate (Suc (?n - Suc (length q))) (None :: string option)"
    by (simp only: replicate_append_same replicate_Suc)
  also have "Suc (?n - Suc (length q)) = ?n - length q"
    using l by simp
  finally show ?thesis by (simp only: c')
qed

lemma rep_head:
  assumes "rep f (x # q)"
  shows "contents f ! nat (consume f) = Some x"
proof -
  have c: "nat (consume f) < length (contents f)"
    using rep_indices(3,4) [OF assms] rep_length [OF assms] by simp
  then have pos: "0 < length (contents f)" by linarith
  have "rotate (nat (consume f)) (contents f) ! 0 =
        contents f ! ((nat (consume f) + 0) mod length (contents f))"
    using pos by (rule nth_rotate)
  then show ?thesis using c by (simp add: rep_slots [OF assms])
qed

section \<open>Push and pull of part_002 on a represented queue\<close>

lemma fifo_push_space:
  assumes "consume f \<noteq> produce f \<or> (0 < size_f f \<and> empty_f f = 1)"
    and "calloc a = (True, a')" and "slot_ok f (produce f)" and "size_f f \<noteq> 0"
  shows "fifo_push a (Some f) (Some s) = Inr (1, Some (stored f s), a')"
  using assms by (auto simp: Let_def stored_def)

lemma fifo_push_nomem:
  assumes "consume f \<noteq> produce f \<or> (0 < size_f f \<and> empty_f f = 1)"
    and "calloc a = (False, a')"
  shows "fifo_push a (Some f) (Some s) = Inr (1, Some f, a')"
  using assms by (auto simp: Let_def)

lemma fifo_push_nospace:
  assumes "consume f = produce f" "size_f f \<le> 0 \<or> empty_f f \<noteq> 1"
  shows "fifo_push a (Some f) str = Inr (0, Some f, a)"
  using assms by (cases str) (auto simp: Let_def)

lemma fifo_push_null:
  "fifo_push a (Some f) None =
     Inr (if consume f \<noteq> produce f \<or> (0 < size_f f \<and> empty_f f = 1) then 1 else 0, Some f, a)"
  by (auto simp: Let_def)

lemma fifo_pull_nothing:
  assumes "(consume f = produce f \<and> empty_f f = 1) \<or> size_f f = 0"
  shows "fifo_pull (Some f) = Inr (None, Some f)"
  using assms by (auto simp: Let_def)

lemma fifo_pull_slot:
  assumes "consume f \<noteq> produce f \<or> empty_f f \<noteq> 1" "size_f f \<noteq> 0" "slot_ok f (consume f)"
  shows "fifo_pull (Some f) = Inr (contents f ! nat (consume f), Some (taken f))"
  using assms by (auto simp: Let_def taken_def)

lemma rep_stored:
  assumes "rep f q" "int (length q) < size_f f"
  shows "rep (stored f s) (q @ [str_cpy s])"
proof (rule repI)
  have n: "0 < size_f f" by (rule rep_size [OF assms(1)])
  have p: "0 \<le> produce f" "produce f < size_f f" by (rule rep_indices [OF assms(1)])+
  show "0 < size_f (stored f s)" using n by (simp add: stored_def)
  show "length (contents (stored f s)) = nat (size_f (stored f s))"
    using rep_length [OF assms(1)] by (simp add: stored_def)
  show "0 \<le> consume (stored f s)" "consume (stored f s) < size_f (stored f s)"
    using rep_indices(3,4) [OF assms(1)] by (simp_all add: stored_def)
  show "int (length (q @ [str_cpy s])) \<le> size_f (stored f s)"
    using assms(2) by (simp add: stored_def)
  have "(produce f + 1) smod size_f f = (produce f + 1) mod size_f f"
    using p n by (simp add: smod_nonneg)
  also have "\<dots> = ((consume f + int (length q)) mod size_f f + 1) mod size_f f"
    by (simp only: rep_produce_mod [OF assms(1), symmetric])
  also have "\<dots> = (consume f + int (length q) + 1) mod size_f f"
    by (simp only: mod_add_left_eq)
  finally show "produce (stored f s) =
      (consume (stored f s) + int (length (q @ [str_cpy s]))) mod size_f (stored f s)"
    by (simp add: stored_def ac_simps)
  show "empty_f (stored f s) = (if q @ [str_cpy s] = [] then 1 else 0)"
    using rep_flag [OF assms(1)] by (simp add: stored_def)
  show "rotate (nat (consume (stored f s))) (contents (stored f s)) =
      map Some (q @ [str_cpy s]) @
      replicate (nat (size_f (stored f s)) - length (q @ [str_cpy s])) None"
    using rep_push_slots [OF assms] by (simp add: stored_def)
qed

lemma rep_space:
  assumes "rep f q"
  shows "(consume f \<noteq> produce f \<or> (0 < size_f f \<and> empty_f f = 1)) \<longleftrightarrow> int (length q) < size_f f"
proof -
  have "consume f = produce f \<longleftrightarrow> q = [] \<or> int (length q) = size_f f"
    using rep_produce_eq [OF assms] by auto
  moreover have "empty_f f = 1 \<longleftrightarrow> q = []"
    using rep_flag [OF assms] by simp
  moreover have "0 < size_f f" "int (length q) \<le> size_f f"
    by (rule rep_size [OF assms], rule rep_bound [OF assms])
  ultimately show ?thesis by auto
qed

lemma push_stores:
  assumes "rep f q" "int (length q) < size_f f" "calloc a = (True, a')"
  shows "fifo_push a (Some f) (Some s) = Inr (1, Some (stored f s), a')"
proof -
  have "size_f f \<noteq> 0" using rep_size [OF assms(1)] by simp
  with rep_space [OF assms(1)] assms(2,3) rep_indices(5) [OF assms(1)]
  show ?thesis by (intro fifo_push_space) simp_all
qed

lemma push_nomem:
  assumes "rep f q" "int (length q) < size_f f" "calloc a = (False, a')"
  shows "fifo_push a (Some f) (Some s) = Inr (1, Some f, a')"
  using rep_space [OF assms(1)] assms(2,3) by (intro fifo_push_nomem) simp_all

lemma push_full:
  assumes "rep f q" "int (length q) = size_f f"
  shows "fifo_push a (Some f) str = Inr (0, Some f, a)"
proof -
  have "\<not> (consume f \<noteq> produce f \<or> (0 < size_f f \<and> empty_f f = 1))"
    using rep_space [OF assms(1)] assms(2) by simp
  then show ?thesis by (intro fifo_push_nospace) auto
qed

lemma push_query:
  assumes "rep f q"
  shows "fifo_push a (Some f) None = Inr (if int (length q) < size_f f then 1 else 0, Some f, a)"
  unfolding fifo_push_null rep_space [OF assms] ..

lemma rep_taken:
  assumes "rep f (x # q)"
  shows "rep (taken f) q"
proof -
  have n: "0 < size_f f" by (rule rep_size [OF assms])
  have c: "0 \<le> consume f" "consume f < size_f f" by (rule rep_indices [OF assms])+
  have sm: "(consume f + 1) smod size_f f = (consume f + 1) mod size_f f"
    using c n by (simp add: smod_nonneg)
  let ?g = "(taken f)\<lparr>empty_f := (if q = [] then 1 else 0)\<rparr>"
  have g: "rep ?g q"
  proof (rule repI)
    show "0 < size_f ?g" using n by (simp add: taken_def)
    show "length (contents ?g) = nat (size_f ?g)"
      using rep_length [OF assms] by (simp add: taken_def)
    show "0 \<le> consume ?g" "consume ?g < size_f ?g"
      using n by (simp_all add: taken_def sm)
    show "int (length q) \<le> size_f ?g"
      using rep_bound [OF assms] by (simp add: taken_def)
    have "produce f = (consume f + int (length (x # q))) mod size_f f"
      by (rule rep_produce_mod [OF assms])
    also have "\<dots> = (consume f + 1 + int (length q)) mod size_f f"
      by (simp add: ac_simps)
    also have "\<dots> = ((consume f + 1) mod size_f f + int (length q)) mod size_f f"
      by (simp only: mod_add_left_eq)
    finally show "produce ?g = (consume ?g + int (length q)) mod size_f ?g"
      by (simp add: taken_def sm)
    show "empty_f ?g = (if q = [] then 1 else 0)" by simp
    show "rotate (nat (consume ?g)) (contents ?g) =
        map Some q @ replicate (nat (size_f ?g) - length q) None"
      using rep_pull_slots [OF assms] by (simp add: taken_def sm)
  qed
  have "int (length q) \<noteq> size_f f" using rep_bound [OF assms] by simp
  then have "produce ?g = consume ?g \<longleftrightarrow> q = []"
    using rep_produce_eq [OF g] by (simp add: taken_def)
  then have "(consume f + 1) smod size_f f = produce f \<longleftrightarrow> q = []"
    by (auto simp: taken_def)
  moreover have "empty_f f = 0" using rep_flag [OF assms] by simp
  ultimately have "?g = taken f"
    by (simp add: taken_def)
  with g show ?thesis by simp
qed

lemma pull_takes:
  assumes "rep f (x # q)"
  shows "fifo_pull (Some f) = Inr (Some x, Some (taken f))"
proof -
  have "empty_f f \<noteq> 1" using rep_flag [OF assms] by simp
  moreover have "size_f f \<noteq> 0" using rep_size [OF assms] by simp
  ultimately have "fifo_pull (Some f) = Inr (contents f ! nat (consume f), Some (taken f))"
    using rep_indices(6) [OF assms] by (intro fifo_pull_slot) simp_all
  then show ?thesis by (simp only: rep_head [OF assms])
qed

lemma pull_empty:
  assumes "rep f []"
  shows "fifo_pull (Some f) = Inr (None, Some f)"
proof -
  have "consume f = produce f" using rep_produce_eq [OF assms] by simp
  moreover have "empty_f f = 1" using rep_flag [OF assms] by simp
  ultimately show ?thesis by (intro fifo_pull_nothing) simp
qed

lemma size_stored [simp]: "size_f (stored f s) = size_f f"
  by (simp add: stored_def)

lemma size_taken [simp]: "size_f (taken f) = size_f f"
  by (simp add: taken_def)

lemma push_fifo0: "fifo_push a (Some (fifo0 0)) str = Inr (0, Some (fifo0 0), a)"
  by (rule fifo_push_nospace) (simp_all add: fifo0_def)

lemma pull_fifo0: "fifo_pull (Some (fifo0 e)) = Inr (None, Some (fifo0 e))"
  by (rule fifo_pull_nothing) (simp add: fifo0_def)

lemma rep_fresh:
  assumes "0 < c"
  shows "rep \<lparr>size_f = c, empty_f = 1, produce = 0, consume = 0,
              contents = replicate (nat c) None\<rparr> []"
  using assms by (intro repI) simp_all

lemma fifo_new_neg: "c < 0 \<Longrightarrow> fifo_new a c = (None, a)"
  by (simp add: fifo_new_def)

lemma fifo_new_nomem: "0 \<le> c \<Longrightarrow> calloc a = (False, a') \<Longrightarrow> fifo_new a c = (None, a')"
  by (simp add: fifo_new_def)

lemma fifo_new_Some:
  assumes "fifo_new a c = (Some f, a')"
  shows "0 \<le> c \<and> calloc a = (True, a') \<and>
     f = \<lparr>size_f = c, empty_f = (if c > 0 then 1 else 0), produce = 0, consume = 0,
          contents = replicate (nat c) None\<rparr>"
  using assms by (auto simp: fifo_new_def split: if_splits prod.splits bool.splits)

lemma fifo_new_inv:
  assumes "fifo_new a c = (Some f, a')"
  shows "inv f \<and> size_f f = c \<and> queue f = []"
proof (cases "c = 0")
  case True
  with fifo_new_Some [OF assms] have "f = fifo0 0" by (simp add: fifo0_def)
  then show ?thesis using True by (simp add: inv_def fifo0_def queue_def)
next
  case False
  with fifo_new_Some [OF assms] have c: "0 < c"
    and f: "f = \<lparr>size_f = c, empty_f = 1, produce = 0, consume = 0,
                  contents = replicate (nat c) None\<rparr>"
    by simp_all
  have "rep f []" unfolding f by (rule rep_fresh [OF c])
  then show ?thesis using rep_queue [of f "[]"] f by (simp add: inv_def)
qed

section \<open>Runs keep the invariant\<close>

lemma inv_cases:
  assumes "inv f"
  obtains (zero) "f = fifo0 0" | (pos) "rep f (queue f)"
  using assms unfolding inv_def by blast

lemma rep_inv: "rep f q \<Longrightarrow> inv f"
  using rep_queue [of f q] by (simp add: inv_def)

lemma calloc_cases:
  obtains (ok) a' where "calloc a = (True, a')" | (fail) a' where "calloc a = (False, a')"
  by (cases "calloc a") (metis (full_types))

lemma push_inv:
  assumes "inv f"
  shows "\<exists>r g a'. fifo_push a (Some f) str = Inr (r, Some g, a') \<and> inv g \<and> size_f g = size_f f"
  using assms
proof (cases rule: inv_cases)
  case zero
  then show ?thesis using assms push_fifo0 by blast
next
  case pos
  show ?thesis
  proof (cases str)
    case None
    then show ?thesis using push_query [OF pos] assms by blast
  next
    case (Some s)
    show ?thesis
    proof (cases "int (length (queue f)) < size_f f")
      case True
      show ?thesis
      proof (cases a rule: calloc_cases)
        case (ok a')
        have "inv (stored f s)" using rep_stored [OF pos True] by (rule rep_inv)
        then show ?thesis using push_stores [OF pos True ok] Some size_stored by blast
      next
        case (fail a')
        then show ?thesis using push_nomem [OF pos True fail] Some assms by blast
      qed
    next
      case False
      then have "int (length (queue f)) = size_f f" using rep_bound [OF pos] by simp
      then show ?thesis using push_full [OF pos] assms by blast
    qed
  qed
qed

lemma pull_inv:
  assumes "inv f"
  shows "\<exists>r g. fifo_pull (Some f) = Inr (r, Some g) \<and> inv g \<and> size_f g = size_f f"
  using assms
proof (cases rule: inv_cases)
  case zero
  then show ?thesis using assms pull_fifo0 by blast
next
  case pos
  show ?thesis
  proof (cases "queue f")
    case Nil
    then show ?thesis using pull_empty [of f] pos assms by auto
  next
    case (Cons x q)
    with pos have r: "rep f (x # q)" by simp
    have "inv (taken f)" using rep_taken [OF r] by (rule rep_inv)
    then show ?thesis using pull_takes [OF r] size_taken by blast
  qed
qed

lemma run_inv:
  assumes "inv f"
  shows "\<exists>tr g a'. run ops a (Some f) = Inr (tr, Some g, a') \<and> inv g \<and> size_f g = size_f f"
  using assms
proof (induction ops arbitrary: a f)
  case Nil
  then show ?case by simp
next
  case (Cons x ops)
  show ?case
  proof (cases x)
    case (Push str)
    from push_inv [OF Cons.prems] obtain r g a' where
      p: "fifo_push a (Some f) str = Inr (r, Some g, a')" and g: "inv g" "size_f g = size_f f"
      by blast
    from Cons.IH [OF g(1)] obtain tr h a'' where
      "run ops a' (Some g) = Inr (tr, Some h, a'')" "inv h" "size_f h = size_f g"
      by blast
    with p g Push show ?thesis by simp
  next
    case Pull
    from pull_inv [OF Cons.prems] obtain r g where
      p: "fifo_pull (Some f) = Inr (r, Some g)" and g: "inv g" "size_f g = size_f f"
      by blast
    from Cons.IH [OF g(1)] obtain tr h a'' where
      "run ops a (Some g) = Inr (tr, Some h, a'')" "inv h" "size_f h = size_f g"
      by blast
    with p g Pull show ?thesis by simp
  qed
qed

lemma run_None: "\<exists>tr. run ops a None = Inr (tr, None, a)"
proof (induction ops)
  case Nil
  then show ?case by simp
next
  case (Cons x ops)
  then show ?case by (cases x) auto
qed

lemma session_inv:
  assumes "session a c ops = Inr (tr, Some f, a')"
  shows "inv f \<and> size_f f = c"
proof (cases "fifo_new a c")
  case (Pair p a0)
  show ?thesis
  proof (cases p)
    case None
    with Pair assms run_None [of ops a0] show ?thesis by (auto simp: session_def)
  next
    case (Some f0)
    with Pair have new: "fifo_new a c = (Some f0, a0)" by simp
    from fifo_new_inv [OF new] have f0: "inv f0" "size_f f0 = c" by simp_all
    from run_inv [OF f0(1), of ops a0] f0(2) assms new show ?thesis
      by (auto simp: session_def)
  qed
qed

lemma occupancy_fifo0: "occupancy (fifo0 e) = 0"
  by (simp add: occupancy_def fifo0_def)

lemma queue_fifo0: "queue (fifo0 e) = []"
  by (simp add: queue_def fifo0_def)

lemma inv_occupancy: "inv f \<Longrightarrow> occupancy f = int (length (queue f))"
  by (auto simp: inv_def occupancy_fifo0 queue_fifo0 rep_occupancy)

lemma run_fifo0: "run ops a (Some (fifo0 0)) = Inr (map refused ops, Some (fifo0 0), a)"
proof (induction ops)
  case Nil
  then show ?case by simp
next
  case (Cons x ops)
  then show ?case
    by (cases x) (simp_all add: push_fifo0 pull_fifo0 del: fifo_push.simps fifo_pull.simps)
qed

lemma run_append:
  "run (xs @ ys) a p =
     (case run xs a p of
        Inl e \<Rightarrow> Inl e
      | Inr (tr, p', a') \<Rightarrow>
          (case run ys a' p' of
             Inl e \<Rightarrow> Inl e
           | Inr (tr', p'', a'') \<Rightarrow> Inr (tr @ tr', p'', a'')))"
proof (induction xs arbitrary: a p)
  case Nil
  then show ?case by (auto split: sum.splits)
next
  case (Cons x xs)
  then show ?case
    by (cases x) (auto split: sum.splits simp del: fifo_push.simps fifo_pull.simps)
qed

lemma run_pushes:
  assumes "rep f q" "int (length q) + int (length vs) \<le> size_f f"
  shows "\<exists>g. run (map (\<lambda>v. Push (Some v)) vs) (replicate (length vs) True @ b) (Some f) =
               Inr (map (\<lambda>v. (Push (Some v), PushRet 1)) vs, Some g, b) \<and>
             rep g (q @ map str_cpy vs)"
  using assms
proof (induction vs arbitrary: f q)
  case Nil
  then show ?case by simp
next
  case (Cons v vs)
  have room: "int (length q) < size_f f" using Cons.prems(2) by simp
  have c: "calloc (replicate (length (v # vs)) True @ b) = (True, replicate (length vs) True @ b)"
    by simp
  have p: "fifo_push (replicate (length (v # vs)) True @ b) (Some f) (Some v) =
           Inr (1, Some (stored f v), replicate (length vs) True @ b)"
    by (rule push_stores [OF Cons.prems(1) room c])
  have r: "rep (stored f v) (q @ [str_cpy v])" by (rule rep_stored [OF Cons.prems(1) room])
  have "int (length (q @ [str_cpy v])) + int (length vs) \<le> size_f (stored f v)"
    using Cons.prems(2) by simp
  from Cons.IH [OF r this] obtain g where
    "run (map (\<lambda>v. Push (Some v)) vs) (replicate (length vs) True @ b) (Some (stored f v)) =
       Inr (map (\<lambda>v. (Push (Some v), PushRet 1)) vs, Some g, b)"
    "rep g ((q @ [str_cpy v]) @ map str_cpy vs)"
    by blast
  with p show ?case by (simp del: fifo_push.simps replicate.simps)
qed

lemma run_pulls:
  assumes "rep f q"
  shows "\<exists>g. run (replicate (length q) Pull) b (Some f) =
               Inr (map (\<lambda>v. (Pull, PullRet (Some v))) q, Some g, b) \<and> rep g []"
  using assms
proof (induction q arbitrary: f)
  case Nil
  then show ?case by simp
next
  case (Cons x q)
  from Cons.IH [OF rep_taken [OF Cons.prems]] obtain g where
    "run (replicate (length q) Pull) b (Some (taken f)) =
       Inr (map (\<lambda>v. (Pull, PullRet (Some v))) q, Some g, b)" "rep g []"
    by blast
  with pull_takes [OF Cons.prems] show ?case by (simp del: fifo_pull.simps)
qed

lemma map_str_cpy: "\<forall>v\<in>set vs. NUL \<notin> set v \<Longrightarrow> map str_cpy vs = vs"
  by (induction vs) (simp_all add: str_cpy_chars)

lemma inv_flag:
  assumes "inv f"
  shows "empty_f f = (if size_f f = 0 then 0 else if occupancy f = 0 then 1 else 0)"
  using assms
proof (cases rule: inv_cases)
  case zero
  then show ?thesis by (simp add: fifo0_def)
next
  case pos
  from rep_size [OF pos] rep_flag [OF pos] rep_occupancy [OF pos] show ?thesis by simp
qed

lemma inv_indices:
  assumes "inv f"
  shows "produce f = consume f \<longleftrightarrow> occupancy f = 0 \<or> occupancy f = size_f f"
  using assms
proof (cases rule: inv_cases)
  case zero
  then show ?thesis by (simp add: fifo0_def occupancy_def)
next
  case pos
  from rep_produce_eq [OF pos] rep_occupancy [OF pos] show ?thesis by simp
qed

lemma inv_bounds:
  assumes "inv f"
  shows "0 \<le> occupancy f \<and> occupancy f \<le> size_f f"
  using assms
proof (cases rule: inv_cases)
  case zero
  then show ?thesis by (simp add: fifo0_def occupancy_def)
next
  case pos
  from rep_bound [OF pos] rep_occupancy [OF pos] show ?thesis by simp
qed

section \<open>Push and pull of part_001 on a represented queue\<close>

lemma filled_rep:
  assumes "rep f q"
  shows "fifo_filled (Some f) = int (length q)"
proof -
  have b: "0 \<le> consume f" "consume f < size_f f" "int (length q) \<le> size_f f"
    using rep_indices(3,4) [OF assms] rep_bound [OF assms] by simp_all
  have e: "empty_f f = 1 \<longleftrightarrow> int (length q) = 0"
    using rep_flag [OF assms] by simp
  show ?thesis
    using b e unfolding fifo_filled.simps rep_produce [OF assms]
    by (auto split: if_splits)
qed

lemma filled_fifo0: "fifo_filled (Some (fifo0 1)) = 0"
  by (simp add: fifo0_def)

lemma stored_p1:
  assumes "rep f q"
  shows "f\<lparr>contents := (contents f)[nat (produce f) := Some (str_cpy s)],
           produce := (produce f + 1) smod size_f f, empty_f := 0\<rparr> = stored f s"
  using rep_flag [OF assms] by (simp add: stored_def)

lemma fifo_push_p1_space:
  assumes "0 < size_f f - fifo_filled (Some f)"
    and "size_f f - fifo_filled (Some f) \<noteq> size_f f \<or> empty_f f \<noteq> 0"
    and "calloc a = (True, a')" and "slot_ok f (produce f)" and "size_f f \<noteq> 0"
  shows "fifo_push_p1 a (Some f) (Some s) =
     Inr (size_f f - fifo_filled (Some f),
          Some (f\<lparr>contents := (contents f)[nat (produce f) := Some (str_cpy s)],
                  produce := (produce f + 1) smod size_f f, empty_f := 0\<rparr>), a')"
  using assms by (auto simp: Let_def simp del: fifo_filled.simps)

lemma fifo_push_p1_nomem:
  assumes "0 < size_f f - fifo_filled (Some f)"
    and "size_f f - fifo_filled (Some f) \<noteq> size_f f \<or> empty_f f \<noteq> 0"
    and "calloc a = (False, a')"
  shows "fifo_push_p1 a (Some f) (Some s) = Inl NullDeref"
  using assms by (auto simp: Let_def simp del: fifo_filled.simps)

lemma fifo_push_p1_nospace:
  assumes "size_f f - fifo_filled (Some f) \<le> 0"
  shows "fifo_push_p1 a (Some f) (Some s) = Inr (0, Some f, a)"
  using assms by (auto simp: Let_def simp del: fifo_filled.simps)

lemma fifo_push_p1_null:
  "fifo_push_p1 a (Some f) None = Inr (size_f f - fifo_filled (Some f), Some f, a)"
  by (simp add: Let_def del: fifo_filled.simps)

lemma fifo_pull_p1_nothing:
  assumes "fifo_filled (Some f) \<le> 0"
  shows "fifo_pull_p1 (Some f) = Inr (None, Some f)"
  using assms by (auto simp: Let_def simp del: fifo_filled.simps)

lemma fifo_pull_p1_slot:
  assumes "0 < fifo_filled (Some f)" "size_f f \<noteq> 0" "slot_ok f (consume f)"
  shows "fifo_pull_p1 (Some f) = Inr (contents f ! nat (consume f), Some (taken f))"
  using assms by (auto simp: Let_def taken_def simp del: fifo_filled.simps)

lemma push_p1_stores:
  assumes "rep f q" "int (length q) < size_f f" "calloc a = (True, a')"
  shows "fifo_push_p1 a (Some f) (Some s) = Inr (size_f f - int (length q), Some (stored f s), a')"
proof -
  have fl: "fifo_filled (Some f) = int (length q)" by (rule filled_rep [OF assms(1)])
  have "size_f f - int (length q) \<noteq> size_f f \<or> empty_f f \<noteq> 0"
    using rep_flag [OF assms(1)] by (cases q) simp_all
  moreover have "size_f f \<noteq> 0" using rep_size [OF assms(1)] by simp
  ultimately have "fifo_push_p1 a (Some f) (Some s) =
     Inr (size_f f - fifo_filled (Some f),
          Some (f\<lparr>contents := (contents f)[nat (produce f) := Some (str_cpy s)],
                  produce := (produce f + 1) smod size_f f, empty_f := 0\<rparr>), a')"
    using assms(2,3) rep_indices(5) [OF assms(1)]
    by (intro fifo_push_p1_space) (simp_all add: fl del: fifo_filled.simps)
  then show ?thesis by (simp only: fl stored_p1 [OF assms(1)])
qed

lemma push_p1_nomem:
  assumes "rep f q" "int (length q) < size_f f" "calloc a = (False, a')"
  shows "fifo_push_p1 a (Some f) (Some s) = Inl NullDeref"
proof -
  have fl: "fifo_filled (Some f) = int (length q)" by (rule filled_rep [OF assms(1)])
  have "size_f f - int (length q) \<noteq> size_f f \<or> empty_f f \<noteq> 0"
    using rep_flag [OF assms(1)] by (cases q) simp_all
  then show ?thesis using assms(2,3)
    by (intro fifo_push_p1_nomem) (simp_all add: fl del: fifo_filled.simps)
qed

lemma push_p1_full:
  assumes "rep f q" "int (length q) = size_f f"
  shows "fifo_push_p1 a (Some f) (Some s) = Inr (0, Some f, a)"
  using assms(2)
  by (intro fifo_push_p1_nospace) (simp add: filled_rep [OF assms(1)] del: fifo_filled.simps)

lemma push_p1_query:
  assumes "rep f q"
  shows "fifo_push_p1 a (Some f) None = Inr (size_f f - int (length q), Some f, a)"
  by (simp only: fifo_push_p1_null filled_rep [OF assms])

lemma pull_p1_takes:
  assumes "rep f (x # q)"
  shows "fifo_pull_p1 (Some f) = Inr (Some x, Some (taken f))"
proof -
  have "0 < fifo_filled (Some f)" by (simp add: filled_rep [OF assms] del: fifo_filled.simps)
  moreover have "size_f f \<noteq> 0" using rep_size [OF assms] by simp
  ultimately have "fifo_pull_p1 (Some f) = Inr (contents f ! nat (consume f), Some (taken f))"
    using rep_indices(6) [OF assms] by (intro fifo_pull_p1_slot) simp_all
  then show ?thesis by (simp only: rep_head [OF assms])
qed

lemma pull_p1_empty:
  assumes "rep f []"
  shows "fifo_pull_p1 (Some f) = Inr (None, Some f)"
  by (intro fifo_pull_p1_nothing) (simp add: filled_rep [OF assms] del: fifo_filled.simps)

lemma push_p1_fifo0: "fifo_push_p1 a (Some (fifo0 1)) str = Inr (0, Some (fifo0 1), a)"
proof (cases str)
  case None
  then show ?thesis by (simp add: fifo_push_p1_null filled_fifo0 fifo0_def del: fifo_push_p1.simps)
next
  case (Some s)
  have "size_f (fifo0 1) - fifo_filled (Some (fifo0 1)) \<le> 0"
    by (simp add: fifo0_def)
  then show ?thesis unfolding Some by (rule fifo_push_p1_nospace)
qed

lemma pull_p1_fifo0: "fifo_pull_p1 (Some (fifo0 1)) = Inr (None, Some (fifo0 1))"
  by (rule fifo_pull_p1_nothing) (simp add: fifo0_def)

lemma inv_p1_cases:
  assumes "inv_p1 f"
  obtains (zero) "f = fifo0 1" | (pos) "rep f (queue f)"
  using assms unfolding inv_p1_def by blast

lemma rep_inv_p1: "rep f q \<Longrightarrow> inv_p1 f"
  using rep_queue [of f q] by (simp add: inv_p1_def)

text \<open>One call of part_001 on a buffer that satisfies the invariant.\<close>

lemma push_p1_step:
  assumes "inv_p1 f" "fifo_push_p1 a (Some f) str = Inr (r, p, a')"
  shows "\<exists>g. p = Some g \<and> inv_p1 g \<and> size_f g = size_f f \<and>
             length (queue g) = length (queue f) + (if pushed (Push str, PushRet r) then 1 else 0)"
  using assms(1)
proof (cases rule: inv_p1_cases)
  case zero
  with assms push_p1_fifo0 [of a str] show ?thesis by (cases str) auto
next
  case pos
  show ?thesis
  proof (cases str)
    case None
    with assms push_p1_query [OF pos, of a] show ?thesis by auto
  next
    case (Some s)
    show ?thesis
    proof (cases "int (length (queue f)) < size_f f")
      case True
      show ?thesis
      proof (cases a rule: calloc_cases)
        case (ok a0)
        have i: "inv_p1 (stored f s)" using rep_stored [OF pos True] by (rule rep_inv_p1)
        have q: "queue (stored f s) = queue f @ [str_cpy s]"
          using rep_stored [OF pos True] by (rule rep_queue)
        from push_p1_stores [OF pos True ok, of s] assms(2) Some True i q show ?thesis
          by auto
      next
        case (fail a0)
        from push_p1_nomem [OF pos True fail, of s] assms(2) Some show ?thesis by simp
      qed
    next
      case False
      then have "int (length (queue f)) = size_f f" using rep_bound [OF pos] by simp
      from push_p1_full [OF pos this, of a s] assms Some show ?thesis by auto
    qed
  qed
qed

lemma pull_p1_step:
  assumes "inv_p1 f" "fifo_pull_p1 (Some f) = Inr (r, p)"
  shows "\<exists>g. p = Some g \<and> inv_p1 g \<and> size_f g = size_f f \<and>
             length (queue f) = length (queue g) + (if pulled (Pull, PullRet r) then 1 else 0)"
  using assms(1)
proof (cases rule: inv_p1_cases)
  case zero
  with assms pull_p1_fifo0 show ?thesis by auto
next
  case pos
  show ?thesis
  proof (cases "queue f")
    case Nil
    with pos have "rep f []" by simp
    from pull_p1_empty [OF this] assms Nil show ?thesis by auto
  next
    case (Cons x q)
    with pos have r: "rep f (x # q)" by simp
    have i: "inv_p1 (taken f)" using rep_taken [OF r] by (rule rep_inv_p1)
    have "queue (taken f) = q" using rep_taken [OF r] by (rule rep_queue)
    with pull_p1_takes [OF r] assms Cons i show ?thesis by auto
  qed
qed

lemma run_p1_counts:
  assumes "inv_p1 f" "run_p1 ops a (Some f) = Inr (tr, p, a')"
  shows "\<exists>g. p = Some g \<and> inv_p1 g \<and> size_f g = size_f f \<and>
             length (queue g) + length (filter pulled tr) =
             length (queue f) + length (filter pushed tr)"
  using assms
proof (induction ops arbitrary: a f tr)
  case Nil
  then show ?case by auto
next
  case (Cons x ops)
  show ?case
  proof (cases x)
    case (Push str)
    from Cons.prems(2) Push obtain r p1 a1 tr1 where
      st: "fifo_push_p1 a (Some f) str = Inr (r, p1, a1)"
      and rest: "run_p1 ops a1 p1 = Inr (tr1, p, a')"
      and tr: "tr = (Push str, PushRet r) # tr1"
      by (auto split: sum.splits simp del: fifo_push_p1.simps)
    from push_p1_step [OF Cons.prems(1) st] obtain g where
      g: "p1 = Some g" "inv_p1 g" "size_f g = size_f f"
      "length (queue g) = length (queue f) + (if pushed (Push str, PushRet r) then 1 else 0)"
      by blast
    from Cons.IH [OF g(2) rest [unfolded g(1)]] obtain h where
      "p = Some h" "inv_p1 h" "size_f h = size_f g"
      "length (queue h) + length (filter pulled tr1) = length (queue g) + length (filter pushed tr1)"
      by blast
    with g tr show ?thesis by (cases str) auto
  next
    case Pull
    from Cons.prems(2) Pull obtain r p1 tr1 where
      st: "fifo_pull_p1 (Some f) = Inr (r, p1)"
      and rest: "run_p1 ops a p1 = Inr (tr1, p, a')"
      and tr: "tr = (Pull, PullRet r) # tr1"
      by (auto split: sum.splits simp del: fifo_pull_p1.simps)
    from pull_p1_step [OF Cons.prems(1) st] obtain g where
      g: "p1 = Some g" "inv_p1 g" "size_f g = size_f f"
      "length (queue f) = length (queue g) + (if pulled (Pull, PullRet r) then 1 else 0)"
      by blast
    from Cons.IH [OF g(2) rest [unfolded g(1)]] obtain h where
      "p = Some h" "inv_p1 h" "size_f h = size_f g"
      "length (queue h) + length (filter pulled tr1) = length (queue g) + length (filter pushed tr1)"
      by blast
    with g tr show ?thesis by (cases r) auto
  qed
qed

lemma run_p1_None: "\<exists>tr. run_p1 ops a None = Inr (tr, None, a)"
proof (induction ops)
  case Nil
  then show ?case by simp
next
  case (Cons x ops)
  then show ?case by (cases x) auto
qed

lemma fifo_new_p1_Some:
  assumes "fifo_new_p1 a c = (Some f, a')"
  shows "0 \<le> c \<and> calloc a = (True, a') \<and>
     f = \<lparr>size_f = c, empty_f = 1, produce = 0, consume = 0,
          contents = replicate (nat c) None\<rparr>"
  using assms by (auto simp: fifo_new_p1_def split: if_splits prod.splits bool.splits)

lemma fifo_new_p1_inv:
  assumes "fifo_new_p1 a c = (Some f, a')"
  shows "inv_p1 f \<and> size_f f = c \<and> queue f = []"
proof (cases "c = 0")
  case True
  with fifo_new_p1_Some [OF assms] have "f = fifo0 1" by (simp add: fifo0_def)
  then show ?thesis using True by (simp add: inv_p1_def fifo0_def queue_def)
next
  case False
  with fifo_new_p1_Some [OF assms] have c: "0 < c"
    and f: "f = \<lparr>size_f = c, empty_f = 1, produce = 0, consume = 0,
                  contents = replicate (nat c) None\<rparr>"
    by simp_all
  have "rep f []" unfolding f by (rule rep_fresh [OF c])
  then show ?thesis using rep_queue [of f "[]"] f by (simp add: inv_p1_def)
qed

lemma session_p1_counts:
  assumes "session_p1 a c ops = Inr (tr, Some f, a')"
  shows "inv_p1 f \<and> size_f f = c \<and>
         length (queue f) + length (filter pulled tr) = length (filter pushed tr)"
proof (cases "fifo_new_p1 a c")
  case (Pair p a0)
  show ?thesis
  proof (cases p)
    case None
    with Pair assms run_p1_None [of ops a0] show ?thesis by (auto simp: session_p1_def)
  next
    case (Some f0)
    with Pair have new: "fifo_new_p1 a c = (Some f0, a0)" by simp
    from fifo_new_p1_inv [OF new] have f0: "inv_p1 f0" "size_f f0 = c" "queue f0 = []"
      by simp_all
    from assms new have "run_p1 ops a0 (Some f0) = Inr (tr, Some f, a')"
      by (simp add: session_p1_def)
    from run_p1_counts [OF f0(1) this] f0(2,3) show ?thesis by auto
  qed
qed

lemma inv_p1_occupancy: "inv_p1 f \<Longrightarrow> occupancy f = int (length (queue f))"
  by (auto simp: inv_p1_def occupancy_fifo0 queue_fifo0 rep_occupancy)

lemma inv_p1_filled: "inv_p1 f \<Longrightarrow> fifo_filled (Some f) = int (length (queue f))"
  by (auto simp: inv_p1_def filled_fifo0 queue_fifo0 filled_rep simp del: fifo_filled.simps)

lemma inv_p1_bounds:
  assumes "inv_p1 f"
  shows "int (length (queue f)) \<le> size_f f"
  using assms
proof (cases rule: inv_p1_cases)
  case zero
  then show ?thesis by (simp add: queue_fifo0) (simp add: fifo0_def)
next
  case pos
  then show ?thesis by (rule rep_bound)
qed

section \<open>Runs of part_002 do not fault\<close>

lemma session_total:
  assumes "0 \<le> c" "calloc a = (True, a0)"
  shows "\<exists>tr f a'. session a c ops = Inr (tr, Some f, a')"
proof -
  obtain f where new: "fifo_new a c = (Some f, a0)"
    using assms by (simp add: fifo_new_def)
  from fifo_new_inv [OF new] have "inv f" by simp
  from run_inv [OF this, of ops a0] new show ?thesis
    by (auto simp: session_def)
qed

section \<open>The loop of fifo_free\<close>

text \<open>
  On an object that represents a queue (so of positive size) the loop terminates without
  a fault, and the slots it frees are the populated slots, each once.
\<close>

lemma free_loop_done: "e \<noteq> 0 \<Longrightarrow> free_loop f i i e freed = Some (Inr freed)"
  by (subst free_loop.simps) simp

lemma free_loop_step:
  assumes "0 < size_f f" "length (contents f) = nat (size_f f)" "0 \<le> cur" "cur < size_f f"
  shows "free_loop f cur end' 0 freed =
         free_loop f ((cur + 1) mod size_f f) end'
           (if (cur + 1) mod size_f f = end' then 1 else 0)
           (freed @ filter (live f) [cur])"
  using assms
  by (subst free_loop.simps) (simp add: slot_ok_def smod_nonneg live_def Let_def)

lemma upt_Suc_shift: "map g [0..<Suc k] = g 0 # map (\<lambda>j. g (Suc j)) [0..<k]"
  by (simp add: upt_conv_Cons map_Suc_upt [symmetric] del: upt_Suc)

lemma free_loop_steps:
  assumes "0 < size_f f" "length (contents f) = nat (size_f f)" "0 \<le> cur" "cur < size_f f"
    and "(cur + int (Suc k)) mod size_f f = end'"
    and "\<And>j. 0 < j \<Longrightarrow> j < Suc k \<Longrightarrow> (cur + int j) mod size_f f \<noteq> end'"
  shows "free_loop f cur end' 0 freed =
         Some (Inr (freed @ filter (live f) (map (\<lambda>j. (cur + int j) mod size_f f) [0..<Suc k])))"
  using assms(3-)
proof (induction k arbitrary: cur freed)
  case 0
  have "(cur + 1) mod size_f f = end'" using "0.prems"(3) by simp
  then show ?case
    using free_loop_step [OF assms(1,2) "0.prems"(1,2), of end' freed] "0.prems"(1,2)
    by (simp add: free_loop_done)
next
  case (Suc k)
  let ?n = "size_f f" and ?c = "(cur + 1) mod size_f f"
  have ne: "?c \<noteq> end'" using Suc.prems(4) [of 1] by simp
  have c: "0 \<le> ?c" "?c < ?n" using assms(1) by simp_all
  have shift: "(?c + int j) mod ?n = (cur + int (Suc j)) mod ?n" for j
  proof -
    have "(?c + int j) mod ?n = (cur + 1 + int j) mod ?n"
      by (simp only: mod_add_left_eq)
    then show ?thesis by (simp add: ac_simps)
  qed
  have e: "(?c + int (Suc k)) mod ?n = end'"
    using Suc.prems(3) by (simp only: shift)
  have d: "(?c + int j) mod ?n \<noteq> end'" if "0 < j" "j < Suc k" for j
    using Suc.prems(4) [of "Suc j"] that by (simp only: shift) simp
  have "free_loop f cur end' 0 freed = free_loop f ?c end' 0 (freed @ filter (live f) [cur])"
    using free_loop_step [OF assms(1,2) Suc.prems(1,2), of end' freed] ne by simp
  also have "\<dots> = Some (Inr ((freed @ filter (live f) [cur]) @
      filter (live f) (map (\<lambda>j. (?c + int j) mod ?n) [0..<Suc k])))"
    by (rule Suc.IH [OF c e d])
  also have "(freed @ filter (live f) [cur]) @
      filter (live f) (map (\<lambda>j. (?c + int j) mod ?n) [0..<Suc k]) =
      freed @ filter (live f) (map (\<lambda>j. (cur + int j) mod ?n) [0..<Suc (Suc k)])"
    using Suc.prems(1,2)
    by (subst (2) upt_Suc_shift) (simp add: shift del: upt_Suc)
  finally show ?case .
qed

lemma idx_inj:
  fixes c n :: int
  assumes "0 \<le> c" "0 < n" "int j < n" "int k < n"
  shows "(c + int j) mod n = (c + int k) mod n \<longleftrightarrow> j = k"
proof -
  have "nat ((c + int j) mod n) = nat ((c + int k) mod n) \<longleftrightarrow> j = k"
    unfolding int_mod_nat [OF assms(1,2)]
    using assms by (intro mod_shift_inj) simp_all
  then show ?thesis by metis
qed

lemma idx_surj:
  fixes c n i :: int
  assumes "0 \<le> i" "i < n"
  shows "\<exists>j. int j < n \<and> (c + int j) mod n = i"
proof (intro exI conjI)
  have p: "0 \<le> (i - c) mod n" "(i - c) mod n < n" using assms by simp_all
  show "int (nat ((i - c) mod n)) < n" using p by simp
  have "(c + int (nat ((i - c) mod n))) mod n = (c + (i - c) mod n) mod n"
    using p by simp
  also have "\<dots> = (c + (i - c)) mod n" by (simp only: mod_add_right_eq)
  also have "\<dots> = i" using assms by simp
  finally show "(c + int (nat ((i - c) mod n))) mod n = i" .
qed

lemma rep_live:
  assumes "rep f q" "int j < size_f f"
  shows "live f ((consume f + int j) mod size_f f) \<longleftrightarrow> j < length q"
proof -
  have n: "0 < size_f f" by (rule rep_size [OF assms(1)])
  have c: "0 \<le> consume f" by (rule rep_indices(3) [OF assms(1)])
  have len: "length (contents f) = nat (size_f f)" by (rule rep_length [OF assms(1)])
  have j: "j < length (contents f)" using assms(2) len by simp
  have "contents f ! nat ((consume f + int j) mod size_f f) =
        contents f ! ((nat (consume f) + j) mod length (contents f))"
    by (simp only: int_mod_nat [OF c n] len)
  also have "\<dots> = rotate (nat (consume f)) (contents f) ! j"
    using j by (simp only: nth_rotate)
  also have "\<dots> = (map Some q @ replicate (nat (size_f f) - length q) None) ! j"
    by (simp only: rep_slots [OF assms(1)])
  finally show ?thesis using j len by (auto simp: live_def nth_append)
qed

lemma fifo_free_rep:
  assumes "rep f q"
  shows "\<exists>L. fifo_free (Some f) = Some (Inr L) \<and> distinct L \<and>
              set L = {i. slot_ok f i \<and> live f i}"
proof -
  let ?n = "size_f f" and ?c = "consume f"
  have n: "0 < ?n" by (rule rep_size [OF assms])
  have len: "length (contents f) = nat ?n" by (rule rep_length [OF assms])
  have c: "0 \<le> ?c" "?c < ?n" by (rule rep_indices [OF assms])+
  have b: "int (length q) \<le> ?n" by (rule rep_bound [OF assms])
  have ok: "slot_ok f i \<longleftrightarrow> 0 \<le> i \<and> i < ?n" for i
    using n by (auto simp: slot_ok_def len)
  have lv: "{i. slot_ok f i \<and> live f i} = (\<lambda>j. (?c + int j) mod ?n) ` {0..<length q}"
  proof (intro set_eqI iffI)
    fix i assume "i \<in> {i. slot_ok f i \<and> live f i}"
    then have i: "0 \<le> i" "i < ?n" "live f i" by (simp_all add: ok)
    from idx_surj [OF i(1,2), of ?c] obtain j where j: "int j < ?n" "(?c + int j) mod ?n = i"
      by blast
    with rep_live [OF assms j(1)] i(3) have "j < length q" by simp
    with j(2) show "i \<in> (\<lambda>j. (?c + int j) mod ?n) ` {0..<length q}" by auto
  next
    fix i assume "i \<in> (\<lambda>j. (?c + int j) mod ?n) ` {0..<length q}"
    then obtain j where j: "j < length q" "i = (?c + int j) mod ?n" by auto
    then have "int j < ?n" using b by simp
    from rep_live [OF assms this] j n show "i \<in> {i. slot_ok f i \<and> live f i}"
      by (simp add: ok)
  qed
  have dist: "distinct (map (\<lambda>j. (s + int j) mod ?n) [0..<k])" if "int k \<le> ?n" "0 \<le> s" for k s
    using that n by (auto simp: distinct_map inj_on_def idx_inj)
  consider (empty) "q = []" | (part) "q \<noteq> []" "int (length q) < ?n" | (full) "int (length q) = ?n"
    using b by fastforce
  then show ?thesis
  proof cases
    case empty
    have "produce f = ?c" using rep_produce_eq [OF assms] empty by simp
    moreover have "empty_f f = 1" using rep_flag [OF assms] empty by simp
    ultimately have "fifo_free (Some f) = Some (Inr [])"
      by (simp add: free_loop_done)
    then show ?thesis using lv empty by simp
  next
    case part
    then obtain k where k: "length q = Suc k" by (cases q) auto
    have ne: "produce f \<noteq> ?c" using rep_produce_eq [OF assms] part by simp
    have e: "empty_f f = 0" using rep_flag [OF assms] part by simp
    have p: "(?c + int (Suc k)) mod ?n = produce f"
      using rep_produce_mod [OF assms] k by simp
    have d: "(?c + int j) mod ?n \<noteq> produce f" if "0 < j" "j < Suc k" for j
      unfolding p [symmetric] using that part(2) k idx_inj [OF c(1) n, of j "Suc k"] by simp
    have all: "filter (live f) (map (\<lambda>j. (?c + int j) mod ?n) [0..<Suc k]) =
               map (\<lambda>j. (?c + int j) mod ?n) [0..<Suc k]"
    proof -
      have "live f ((?c + int j) mod ?n)" if "j < Suc k" for j
      proof -
        from that have "j < length q" by (simp only: k)
        moreover then have "int j < ?n" using b by simp
        ultimately show ?thesis using rep_live [OF assms] by simp
      qed
      then show ?thesis by (intro filter_True) auto
    qed
    have "fifo_free (Some f) = free_loop f ?c (produce f) 0 []"
      using ne e by simp
    also have "\<dots> = Some (Inr ([] @ filter (live f) (map (\<lambda>j. (?c + int j) mod ?n) [0..<Suc k])))"
      by (rule free_loop_steps [OF n len c p d])
    finally have "fifo_free (Some f) = Some (Inr (map (\<lambda>j. (?c + int j) mod ?n) [0..<length q]))"
      by (simp only: all k append_Nil)
    moreover have "distinct (map (\<lambda>j. (?c + int j) mod ?n) [0..<length q])"
      using b c(1) by (rule dist)
    ultimately show ?thesis using lv by auto
  next
    case full
    then obtain k where k: "nat ?n = Suc k" "length q = Suc k" using n by (cases "nat ?n") auto
    have kn: "int (Suc k) = ?n" using k(1) n by linarith
    have eq: "produce f = ?c" using rep_produce_eq [OF assms] full by simp
    have e: "empty_f f = 0" using rep_flag [OF assms] k(2) by (cases q) simp_all
    have p: "(0 + int (Suc k)) mod ?n = 0" by (simp only: kn) simp
    have d: "(0 + int j) mod ?n \<noteq> 0" if "0 < j" "j < Suc k" for j
      using that kn by simp
    have "fifo_free (Some f) = free_loop f 0 0 0 []"
      using eq e by simp
    also have "\<dots> = Some (Inr ([] @ filter (live f) (map (\<lambda>j. (0 + int j) mod ?n) [0..<Suc k])))"
      using n by (intro free_loop_steps [OF n len _ _ p d]) simp_all
    finally have r: "fifo_free (Some f) =
        Some (Inr (filter (live f) (map (\<lambda>j. (0 + int j) mod ?n) [0..<Suc k])))"
      by simp
    have "distinct (map (\<lambda>j. (0 + int j) mod ?n) [0..<Suc k])"
      by (rule dist) (use kn in linarith)+
    then have d': "distinct (filter (live f) (map (\<lambda>j. (0 + int j) mod ?n) [0..<Suc k]))"
      by (rule distinct_filter)
    have "set (filter (live f) (map (\<lambda>j. (0 + int j) mod ?n) [0..<Suc k])) =
          {i. slot_ok f i \<and> live f i}"
    proof (intro set_eqI iffI)
      fix i assume "i \<in> set (filter (live f) (map (\<lambda>j. (0 + int j) mod ?n) [0..<Suc k]))"
      then obtain j where "i = (0 + int j) mod ?n" "live f i"
        by (auto simp del: upt_Suc)
      then show "i \<in> {i. slot_ok f i \<and> live f i}" using n by (simp add: ok)
    next
      fix i assume "i \<in> {i. slot_ok f i \<and> live f i}"
      then have i: "0 \<le> i" "i < ?n" "live f i" by (simp_all add: ok)
      then have "nat i < Suc k" "(0 + int (nat i)) mod ?n = i" using kn by simp_all
      then have "i \<in> (\<lambda>j. (0 + int j) mod ?n) ` {0..<Suc k}"
        by (metis atLeastLessThan_iff image_eqI zero_le)
      with i(3) show "i \<in> set (filter (live f) (map (\<lambda>j. (0 + int j) mod ?n) [0..<Suc k]))"
        by (simp del: upt_Suc)
    qed
    with r d' show ?thesis by blast
  qed
qed

lemma fifo_free_p1_eq: "fifo_free_p1 p = fifo_free p"
  by (cases p) simp_all

lemma live_fifo0: "{i. slot_ok (fifo0 e) i \<and> live (fifo0 e) i} = {}"
  by (simp add: slot_ok_def fifo0_def)

lemma fifo_free_positive:
  assumes "session a c ops = Inr (tr, Some f, a')" "0 < c"
  shows "\<exists>L. fifo_free (Some f) = Some (Inr L) \<and> distinct L \<and>
              set L = {i. slot_ok f i \<and> live f i}"
proof -
  from session_inv [OF assms(1)] have i: "inv f" and sz: "size_f f = c" by simp_all
  from i show ?thesis
  proof (cases rule: inv_cases)
    case zero
    then show ?thesis using sz assms(2) by (simp add: fifo0_def)
  next
    case pos
    then show ?thesis by (rule fifo_free_rep)
  qed
qed

lemma fifo_free_p1_safe:
  assumes "session_p1 a c ops = Inr (tr, Some f, a')"
  shows "\<exists>L. fifo_free_p1 (Some f) = Some (Inr L) \<and> distinct L \<and>
              set L = {i. slot_ok f i \<and> live f i}"
proof -
  from session_p1_counts [OF assms] have i: "inv_p1 f" by simp
  from i show ?thesis
  proof (cases rule: inv_p1_cases)
    case zero
    have "fifo_free_p1 (Some (fifo0 1)) = Some (Inr [])"
      by (simp add: fifo0_def free_loop_done)
    then show ?thesis unfolding zero using live_fifo0 [of 1] by simp
  next
    case pos
    then show ?thesis unfolding fifo_free_p1_eq by (rule fifo_free_rep)
  qed
qed

section \<open>Evaluation on concrete buffers\<close>

lemmas fifo_eval = session_def session_p1_def fifo_new_def fifo_new_p1_def Let_def slot_ok_def
  str_cpy_chars NUL_def smod_nonneg occupancy_def

section \<open>First in, first out\<close>

text \<open>
  C1. Take any state \<open>f\<close> of a buffer of capacity \<open>c\<close> reached from construction, and
  strings \<open>v1..vn\<close> that fit its free slots (on an empty buffer: \<open>n \<le> c\<close>). With
  \<open>calloc\<close> succeeding, the \<open>n\<close> pushes all return 1 (success), and the pulls that
  follow return first the strings the buffer held before, oldest first, and then
  \<open>v1..vn\<close> in exactly the order pushed; the buffer is empty afterwards. On a buffer that
  was empty before the pushes (\<open>queue f = []\<close>, as after construction) these are \<open>n\<close>
  pulls returning \<open>v1..vn\<close>. The string a pull returns is the copy \<open>str_cpy\<close> made, whose
  characters are those of the string pushed.
\<close>

theorem fifo_order:
  assumes "session a c ops = Inr (tr, Some f, a0)"
    and "occupancy f + int (length vs) \<le> c"
    and "\<forall>v\<in>set vs. NUL \<notin> set v"
  shows "\<exists>g. run (map (\<lambda>v. Push (Some v)) vs @ replicate (length (queue f) + length vs) Pull)
                 (replicate (length vs) True @ b) (Some f) =
               Inr (map (\<lambda>v. (Push (Some v), PushRet 1)) vs @
                    map (\<lambda>v. (Pull, PullRet (Some v))) (queue f @ vs), Some g, b) \<and>
             occupancy g = 0"
proof -
  from session_inv [OF assms(1)] have i: "inv f" and sz: "size_f f = c" by simp_all
  from i show ?thesis
  proof (cases rule: inv_cases)
    case zero
    then have "c = 0" using sz by (simp add: fifo0_def)
    with assms(2) zero have "vs = []" by (simp add: occupancy_fifo0)
    with zero show ?thesis by (simp add: queue_fifo0 occupancy_fifo0)
  next
    case pos
    have "int (length (queue f)) + int (length vs) \<le> size_f f"
      using assms(2) sz rep_occupancy [OF pos] by simp
    from run_pushes [OF pos this, of b] obtain g where
      g: "run (map (\<lambda>v. Push (Some v)) vs) (replicate (length vs) True @ b) (Some f) =
            Inr (map (\<lambda>v. (Push (Some v), PushRet 1)) vs, Some g, b)"
      and rg: "rep g (queue f @ vs)"
      using map_str_cpy [OF assms(3)] by auto
    from run_pulls [OF rg, of b] obtain h where
      h: "run (replicate (length (queue f) + length vs) Pull) b (Some g) =
            Inr (map (\<lambda>v. (Pull, PullRet (Some v))) (queue f @ vs), Some h, b)"
      and rh: "rep h []"
      by auto
    have "occupancy h = 0" using rep_occupancy [OF rh] by simp
    with g h show ?thesis by (simp add: run_append)
  qed
qed

theorem fifo_order_witness:
  "run [Push (Some ''ab''), Push (Some ''c''), Pull, Pull] [True, True]
       (Some \<lparr>size_f = 2, empty_f = 1, produce = 0, consume = 0, contents = [None, None]\<rparr>) =
     Inr ([(Push (Some ''ab''), PushRet 1), (Push (Some ''c''), PushRet 1),
           (Pull, PullRet (Some ''ab'')), (Pull, PullRet (Some ''c''))],
          Some \<lparr>size_f = 2, empty_f = 1, produce = 0, consume = 0, contents = [None, None]\<rparr>, [])"
proof -
  let ?f = "\<lparr>size_f = 2, empty_f = 1, produce = 0, consume = 0, contents = [None, None]\<rparr>"
  have s: "session [True] 2 [] = Inr ([], Some ?f, [])"
    by (simp add: session_def fifo_new_def numeral_2_eq_2)
  have o: "occupancy ?f + int (length [''ab'', ''c'']) \<le> 2"
    by (simp add: occupancy_def)
  have n: "\<forall>v\<in>set [''ab'', ''c'']. NUL \<notin> set v"
    by (simp add: NUL_def)
  from fifo_order [OF s o n, of "[]"] show ?thesis
    by (simp add: queue_def Let_def slot_ok_def str_cpy_chars NUL_def smod_nonneg)
qed

section \<open>What a push returns\<close>

text \<open>
  C2, as the code has it. In part_001 a push that stores its string returns the number
  of free slots before the insertion, \<open>capacity - occupancy\<close>. In part_002 \<open>space\<close> is a
  flag, and a push that stores its string returns 1 whatever the number of free slots.
\<close>

theorem push_returns:
  "(session_p1 a c ops = Inr (tr, Some f, a') \<and> occupancy f < c \<longrightarrow>
      fifo_push_p1 (True # b) (Some f) (Some s) = Inr (c - occupancy f, Some (stored f s), b)) \<and>
   (session a c ops = Inr (tr, Some f, a') \<and> occupancy f < c \<longrightarrow>
      fifo_push (True # b) (Some f) (Some s) = Inr (1, Some (stored f s), b))"
proof (intro conjI impI; elim conjE)
  assume s: "session_p1 a c ops = Inr (tr, Some f, a')" and o: "occupancy f < c"
  from session_p1_counts [OF s] have i: "inv_p1 f" and sz: "size_f f = c" by simp_all
  from i show "fifo_push_p1 (True # b) (Some f) (Some s) =
      Inr (c - occupancy f, Some (stored f s), b)"
  proof (cases rule: inv_p1_cases)
    case zero
    then show ?thesis using o sz by (simp add: fifo0_def occupancy_def)
  next
    case pos
    have room: "int (length (queue f)) < size_f f"
      using rep_occupancy [OF pos] o sz by simp
    have "fifo_push_p1 (True # b) (Some f) (Some s) =
        Inr (size_f f - int (length (queue f)), Some (stored f s), b)"
      by (rule push_p1_stores [OF pos room]) simp
    then show ?thesis by (simp only: sz rep_occupancy [OF pos])
  qed
next
  assume s: "session a c ops = Inr (tr, Some f, a')" and o: "occupancy f < c"
  from session_inv [OF s] have i: "inv f" and sz: "size_f f = c" by simp_all
  from i show "fifo_push (True # b) (Some f) (Some s) = Inr (1, Some (stored f s), b)"
  proof (cases rule: inv_cases)
    case zero
    then show ?thesis using o sz by (simp add: fifo0_def occupancy_def)
  next
    case pos
    have room: "int (length (queue f)) < size_f f"
      using rep_occupancy [OF pos] o sz by simp
    show ?thesis by (rule push_stores [OF pos room]) simp
  qed
qed

theorem push_returns_witness:
  "fifo_push_p1 [True] (Some \<lparr>size_f = 2, empty_f = 1, produce = 0, consume = 0,
                               contents = [None, None]\<rparr>) (Some ''a'') =
     Inr (2, Some \<lparr>size_f = 2, empty_f = 0, produce = 1, consume = 0,
                   contents = [Some ''a'', None]\<rparr>, []) \<and>
   fifo_push [True] (Some \<lparr>size_f = 2, empty_f = 1, produce = 0, consume = 0,
                            contents = [None, None]\<rparr>) (Some ''a'') =
     Inr (1, Some \<lparr>size_f = 2, empty_f = 0, produce = 1, consume = 0,
                   contents = [Some ''a'', None]\<rparr>, [])"
proof -
  let ?f = "\<lparr>size_f = 2, empty_f = 1, produce = 0, consume = 0, contents = [None, None]\<rparr>"
  have s1: "session_p1 [True] 2 [] = Inr ([], Some ?f, [])"
    by (simp add: fifo_eval numeral_2_eq_2)
  have s2: "session [True] 2 [] = Inr ([], Some ?f, [])"
    by (simp add: fifo_eval numeral_2_eq_2)
  have o: "occupancy ?f < 2" by (simp add: occupancy_def)
  from push_returns [of "[True]" 2 "[]" "[]" ?f "[]" "[]" "''a''"] s1 s2 o
  show ?thesis by (simp add: stored_def fifo_eval del: fifo_push.simps fifo_push_p1.simps)
qed

text \<open>
  C2 as stated fails in part_002: on an empty buffer of capacity 2 the first push returns
  1, not 2 (the second returns 1, the third 0).
\<close>

theorem push_returns_counterexample:
  "session [True, True, True] 2 [Push (Some ''a''), Push (Some ''a''), Push (Some ''a'')] =
     Inr ([(Push (Some ''a''), PushRet 1), (Push (Some ''a''), PushRet 1),
           (Push (Some ''a''), PushRet 0)],
          Some \<lparr>size_f = 2, empty_f = 0, produce = 0, consume = 0,
                 contents = [Some ''a'', Some ''a'']\<rparr>, [])"
  by (simp add: fifo_eval numeral_2_eq_2)

section \<open>The full buffer\<close>

text \<open>
  C3. In a reachable state whose occupancy equals the capacity, a push of any string
  returns 0, leaves every field and slot as it was and does not allocate. At a positive
  capacity the next pull succeeds (it returns the oldest string) and leaves one slot
  free, and the push after it succeeds if \<open>calloc\<close> does: it returns 1, the buffer is full
  again and its string is the newest of the queue. At capacity 0 no pull succeeds.
\<close>

theorem full_push_refused:
  assumes "session a c ops = Inr (tr, Some f, a')" and "occupancy f = c"
  shows "fifo_push b (Some f) (Some s) = Inr (0, Some f, b) \<and>
         (if c = 0 then fifo_pull (Some f) = Inr (None, Some f)
          else \<exists>x. fifo_pull (Some f) = Inr (Some x, Some (taken f)) \<and>
                   occupancy (taken f) = c - 1 \<and>
                   fifo_push (True # b) (Some (taken f)) (Some s) =
                     Inr (1, Some (stored (taken f) s), b) \<and>
                   occupancy (stored (taken f) s) = c \<and>
                   queue (stored (taken f) s) = tl (queue f) @ [str_cpy s])"
proof -
  from session_inv [OF assms(1)] have i: "inv f" and sz: "size_f f = c" by simp_all
  from i show ?thesis
  proof (cases rule: inv_cases)
    case zero
    then have "c = 0" using sz by (simp add: fifo0_def)
    with zero show ?thesis by (simp add: push_fifo0 pull_fifo0 del: fifo_push.simps fifo_pull.simps)
  next
    case pos
    have c: "0 < c" using rep_size [OF pos] sz by simp
    have full: "int (length (queue f)) = size_f f"
      using rep_occupancy [OF pos] assms(2) sz by simp
    have p: "fifo_push b (Some f) (Some s) = Inr (0, Some f, b)"
      by (rule push_full [OF pos full])
    from full c sz obtain x q where q: "queue f = x # q" by (cases "queue f") auto
    with pos have r: "rep f (x # q)" by simp
    have rt: "rep (taken f) q" by (rule rep_taken [OF r])
    have room: "int (length q) < size_f (taken f)" using full q by simp
    have rs: "rep (stored (taken f) s) (q @ [str_cpy s])" by (rule rep_stored [OF rt room])
    have "fifo_push (True # b) (Some (taken f)) (Some s) = Inr (1, Some (stored (taken f) s), b)"
      by (rule push_stores [OF rt room]) simp
    moreover have "occupancy (taken f) = c - 1"
      using rep_occupancy [OF rt] full q sz by simp
    moreover have "occupancy (stored (taken f) s) = c"
      using rep_occupancy [OF rs] full q sz by simp
    moreover have "queue (stored (taken f) s) = tl (queue f) @ [str_cpy s]"
      using rep_queue [OF rs] q by simp
    ultimately show ?thesis using p c pull_takes [OF r] by simp
  qed
qed

theorem full_push_refused_witness:
  "fifo_push [] (Some \<lparr>size_f = 1, empty_f = 0, produce = 0, consume = 0,
                        contents = [Some ''a'']\<rparr>) (Some ''b'') =
     Inr (0, Some \<lparr>size_f = 1, empty_f = 0, produce = 0, consume = 0,
                   contents = [Some ''a'']\<rparr>, []) \<and>
   fifo_pull (Some \<lparr>size_f = 1, empty_f = 0, produce = 0, consume = 0,
                     contents = [Some ''a'']\<rparr>) =
     Inr (Some ''a'', Some \<lparr>size_f = 1, empty_f = 1, produce = 0, consume = 0,
                            contents = [None]\<rparr>) \<and>
   fifo_push [True] (Some \<lparr>size_f = 1, empty_f = 1, produce = 0, consume = 0,
                            contents = [None]\<rparr>) (Some ''b'') =
     Inr (1, Some \<lparr>size_f = 1, empty_f = 0, produce = 0, consume = 0,
                   contents = [Some ''b'']\<rparr>, [])"
proof -
  let ?f = "\<lparr>size_f = 1, empty_f = 0, produce = 0, consume = 0, contents = [Some ''a'']\<rparr>"
  have s: "session [True, True] 1 [Push (Some ''a'')] =
      Inr ([(Push (Some ''a''), PushRet 1)], Some ?f, [])"
    by (simp add: fifo_eval)
  have o: "occupancy ?f = 1" by (simp add: occupancy_def)
  from full_push_refused [OF s o, of "[]" "''b''"] show ?thesis
    by (simp add: taken_def stored_def fifo_eval)
qed

section \<open>Occupancy, indices and the flag\<close>

text \<open>
  C4, as the code has it. In every state reached from construction by pushes and pulls
  (part_002), the occupancy is in \<open>[0, capacity]\<close>, and \<open>produce = consume\<close> exactly when
  the occupancy is 0 or the capacity. At a positive capacity \<open>empty\<close> is 1 exactly when
  the occupancy is 0, and 0 otherwise. At capacity 0 \<open>empty\<close> is 0 in every state,
  although the occupancy is 0.
\<close>

theorem reachable_occupancy_flag:
  assumes "session a c ops = Inr (tr, Some f, a')"
  shows "size_f f = c \<and> 0 \<le> occupancy f \<and> occupancy f \<le> c \<and>
         (produce f = consume f \<longleftrightarrow> occupancy f = 0 \<or> occupancy f = c) \<and>
         empty_f f = (if c = 0 then 0 else if occupancy f = 0 then 1 else 0)"
proof -
  from session_inv [OF assms] have i: "inv f" and sz: "size_f f = c" by simp_all
  from inv_flag [OF i] inv_indices [OF i] inv_bounds [OF i] sz show ?thesis by simp
qed

theorem reachable_occupancy_flag_witness:
  "size_f \<lparr>size_f = 2, empty_f = 0, produce = 1, consume = 0, contents = [Some ''a'', None]\<rparr> = 2 \<and>
   occupancy \<lparr>size_f = 2, empty_f = 0, produce = 1, consume = 0, contents = [Some ''a'', None]\<rparr> = 1 \<and>
   produce \<lparr>size_f = 2, empty_f = 0, produce = 1, consume = 0, contents = [Some ''a'', None]\<rparr> \<noteq>
   consume \<lparr>size_f = 2, empty_f = 0, produce = 1, consume = 0, contents = [Some ''a'', None]\<rparr> \<and>
   empty_f \<lparr>size_f = 2, empty_f = 0, produce = 1, consume = 0, contents = [Some ''a'', None]\<rparr> = 0"
proof -
  let ?f = "\<lparr>size_f = 2, empty_f = 0, produce = 1, consume = 0, contents = [Some ''a'', None]\<rparr>"
  have "session [True, True] 2 [Push (Some ''a'')] =
      Inr ([(Push (Some ''a''), PushRet 1)], Some ?f, [])"
    by (simp add: fifo_eval numeral_2_eq_2)
  from reachable_occupancy_flag [OF this] show ?thesis
    by (simp add: occupancy_def split: if_splits)
qed

text \<open>
  C4 as stated fails at capacity 0: the constructed buffer holds nothing and its flag
  \<open>empty\<close> is 0.
\<close>

theorem zero_capacity_flag_counterexample:
  "session [True] 0 [] = Inr ([], Some (fifo0 0), []) \<and>
   occupancy (fifo0 0) = 0 \<and> empty_f (fifo0 0) = 0"
  by (simp add: session_def fifo_new_def fifo0_def occupancy_def)

section \<open>Construction\<close>

text \<open>
  C5, as the code has it. A negative capacity returns NULL (the only failure indication
  the code has) and leaves the allocator as it was: no \<open>calloc\<close> call was made. For every
  capacity \<open>c \<ge> 0\<close> with a successful \<open>calloc\<close>, the object has \<open>size = c\<close>,
  \<open>produce = consume = 0\<close> and \<open>c\<close> null slots. The flag \<open>empty\<close> is 1 for a positive
  capacity. At capacity 0 the revisions differ: part_002 sets \<open>empty = 0\<close>
  (\<open>(size > 0) ? 1 : 0\<close>, and its test asserts \<open>fifo->empty == 0\<close>), part_001 sets
  \<open>empty = 1\<close>.
\<close>

theorem fifo_new_result:
  "(c < 0 \<longrightarrow> fifo_new a c = (None, a) \<and> fifo_new_p1 a c = (None, a)) \<and>
   (0 \<le> c \<longrightarrow>
      fifo_new (True # a) c =
        (Some \<lparr>size_f = c, empty_f = (if c = 0 then 0 else 1), produce = 0, consume = 0,
               contents = replicate (nat c) None\<rparr>, a) \<and>
      fifo_new_p1 (True # a) c =
        (Some \<lparr>size_f = c, empty_f = 1, produce = 0, consume = 0,
               contents = replicate (nat c) None\<rparr>, a))"
  by (simp add: fifo_new_def fifo_new_p1_def)

theorem fifo_new_result_witness:
  "fifo_new [True] (- 1) = (None, [True]) \<and> fifo_new_p1 [True] (- 1) = (None, [True]) \<and>
   fifo_new [True] 0 =
     (Some \<lparr>size_f = 0, empty_f = 0, produce = 0, consume = 0, contents = []\<rparr>, []) \<and>
   fifo_new_p1 [True] 0 =
     (Some \<lparr>size_f = 0, empty_f = 1, produce = 0, consume = 0, contents = []\<rparr>, []) \<and>
   fifo_new [True] 2 =
     (Some \<lparr>size_f = 2, empty_f = 1, produce = 0, consume = 0, contents = [None, None]\<rparr>, [])"
  using fifo_new_result [of "- 1" "[True]"] fifo_new_result [of 0 "[]"] fifo_new_result [of 2 "[]"]
  by (simp add: numeral_2_eq_2)

text \<open>
  C5 as stated fails at capacity 0 in part_002: the constructed object has \<open>empty = 0\<close>,
  so \<open>is_empty\<close> is false.
\<close>

theorem fifo_new_zero_flag_counterexample:
  "fifo_new [True] 0 =
     (Some \<lparr>size_f = 0, empty_f = 0, produce = 0, consume = 0, contents = []\<rparr>, [])"
  by (simp add: fifo_new_def)

section \<open>The buffer of capacity 0\<close>

text \<open>
  C6. On a buffer constructed with capacity 0, every call of any sequence of pushes and
  pulls is refused: each push returns 0 (whatever its argument), each pull returns NULL,
  no call allocates, and the object after the sequence is the one construction made. As
  this holds for every sequence, it holds in every state reachable from construction.
\<close>

theorem capacity_zero_permanent:
  assumes "calloc a = (True, a0)"
  shows "session a 0 ops = Inr (map refused ops, Some (fifo0 0), a0)"
proof -
  have "fifo_new a 0 = (Some (fifo0 0), a0)"
    using assms by (simp add: fifo_new_def fifo0_def)
  then show ?thesis by (simp add: session_def run_fifo0)
qed

theorem capacity_zero_permanent_witness:
  "session [True, True] 0 [Push (Some ''a''), Pull, Push None, Push (Some ''b'')] =
     Inr ([(Push (Some ''a''), PushRet 0), (Pull, PullRet None), (Push None, PushRet 0),
           (Push (Some ''b''), PushRet 0)],
          Some \<lparr>size_f = 0, empty_f = 0, produce = 0, consume = 0, contents = []\<rparr>, [True])"
  using capacity_zero_permanent [of "[True, True]" "[True]"
      "[Push (Some ''a''), Pull, Push None, Push (Some ''b'')]"]
  by (simp add: fifo0_def)

section \<open>Destruction\<close>

text \<open>
  C7 at the buffer \<open>fifo_new(0)\<close> of part_002: \<open>size\<close> and \<open>empty\<close> are both 0, so
  \<open>fifo_free\<close> enters its loop, reads \<open>contents[0]\<close> of an object that has no slot, and
  would next compute \<open>(0 + 1) % 0\<close>. On the null pointer \<open>fifo_free\<close> does nothing. In
  part_001, where \<open>fifo_new(0)\<close> sets \<open>empty = 1\<close>, the same loop is not entered. In
  every other reachable state the claim holds: \<open>fifo_free_positive\<close> (part_002, positive
  capacity) and \<open>fifo_free_p1_safe\<close> (part_001, every capacity) above.
\<close>

theorem fifo_free_zero_capacity:
  "fifo_new [True] 0 = (Some (fifo0 0), []) \<and>
   fifo_free (Some (fifo0 0)) = Some (Inl (OutOfBounds 0)) \<and>
   size_f (fifo0 0) = 0 \<and>
   fifo_free None = Some (Inr []) \<and>
   fifo_new_p1 [True] 0 = (Some (fifo0 1), []) \<and>
   fifo_free_p1 (Some (fifo0 1)) = Some (Inr [])"
proof -
  have "free_loop (fifo0 0) 0 0 0 [] = Some (Inl (OutOfBounds 0))"
    by (subst free_loop.simps) (simp add: slot_ok_def fifo0_def)
  moreover have "free_loop (fifo0 1) 0 0 1 [] = Some (Inr [])"
    by (subst free_loop.simps) simp
  ultimately show ?thesis
    by (simp add: fifo_new_def fifo_new_p1_def fifo0_def)
qed

section \<open>The occupancy query\<close>

text \<open>
  C8 (part_001). In every state reached from construction by pushes and pulls,
  \<open>fifo_filled\<close> is \<open>produce - consume\<close> when \<open>produce > consume\<close>,
  \<open>capacity - consume + produce\<close> when \<open>produce < consume\<close>, and otherwise 0 when
  \<open>empty\<close> is 1 and the capacity when it is not; it does not depend on the slot array;
  it equals the number of populated slots, and the number of successful pushes minus the
  number of successful pulls of the run; and it lies in \<open>[0, capacity]\<close>. It is a
  function of the object to an integer: it writes nothing.
\<close>

theorem fifo_filled_counts:
  assumes "session_p1 a c ops = Inr (tr, Some f, a')"
  shows "fifo_filled (Some f) =
           (if produce f > consume f then produce f - consume f
            else if produce f < consume f then c - consume f + produce f
            else if empty_f f = 1 then 0 else c) \<and>
         fifo_filled (Some (f\<lparr>contents := cs\<rparr>)) = fifo_filled (Some f) \<and>
         fifo_filled (Some f) = occupancy f \<and>
         fifo_filled (Some f) = int (length (filter pushed tr)) - int (length (filter pulled tr)) \<and>
         0 \<le> fifo_filled (Some f) \<and> fifo_filled (Some f) \<le> c"
proof -
  from session_p1_counts [OF assms] have i: "inv_p1 f" and sz: "size_f f = c"
    and n: "length (queue f) + length (filter pulled tr) = length (filter pushed tr)"
    by simp_all
  have "fifo_filled (Some f) =
           (if produce f > consume f then produce f - consume f
            else if produce f < consume f then c - consume f + produce f
            else if empty_f f = 1 then 0 else c)"
    using sz by simp
  moreover have "fifo_filled (Some (f\<lparr>contents := cs\<rparr>)) = fifo_filled (Some f)"
    by simp
  moreover have "fifo_filled (Some f) = occupancy f"
    by (simp only: inv_p1_filled [OF i] inv_p1_occupancy [OF i])
  moreover have "fifo_filled (Some f) =
      int (length (filter pushed tr)) - int (length (filter pulled tr))"
    unfolding inv_p1_filled [OF i] using n by linarith
  moreover have "0 \<le> fifo_filled (Some f)" "fifo_filled (Some f) \<le> c"
    unfolding inv_p1_filled [OF i] using inv_p1_bounds [OF i] sz by simp_all
  ultimately show ?thesis by blast
qed

theorem fifo_filled_counts_witness:
  "fifo_filled (Some \<lparr>size_f = 2, empty_f = 0, produce = 1, consume = 1,
                       contents = [Some ''c'', Some ''b'']\<rparr>) = 2 \<and>
   occupancy \<lparr>size_f = 2, empty_f = 0, produce = 1, consume = 1,
               contents = [Some ''c'', Some ''b'']\<rparr> = 2 \<and>
   int (length (filter pushed
      [(Push (Some ''a''), PushRet 2), (Push (Some ''b''), PushRet 1), (Pull, PullRet (Some ''a'')),
       (Push (Some ''c''), PushRet 1)])) -
   int (length (filter pulled
      [(Push (Some ''a''), PushRet 2), (Push (Some ''b''), PushRet 1), (Pull, PullRet (Some ''a'')),
       (Push (Some ''c''), PushRet 1)])) = 2"
proof -
  have "session_p1 [True, True, True, True] 2
          [Push (Some ''a''), Push (Some ''b''), Pull, Push (Some ''c'')] =
        Inr ([(Push (Some ''a''), PushRet 2), (Push (Some ''b''), PushRet 1),
              (Pull, PullRet (Some ''a'')), (Push (Some ''c''), PushRet 1)],
             Some \<lparr>size_f = 2, empty_f = 0, produce = 1, consume = 1,
                    contents = [Some ''c'', Some ''b'']\<rparr>, [])"
    by (simp add: fifo_eval numeral_2_eq_2)
  from fifo_filled_counts [OF this, of "[]"] show ?thesis
    by (simp add: occupancy_def)
qed

section \<open>Push with the null pointer\<close>

text \<open>
  C9, as the code has it. In every reachable state a push of the null pointer changes no
  field, no slot and not the allocator. In part_001 it returns the free space,
  \<open>capacity - occupancy\<close>; in part_002 it returns the flag \<open>space\<close>: 1 when a slot is
  free, 0 when the buffer is full.
\<close>

theorem push_null_query:
  "(session_p1 a c ops = Inr (tr, Some f, a') \<longrightarrow>
      fifo_push_p1 b (Some f) None = Inr (c - occupancy f, Some f, b)) \<and>
   (session a c ops = Inr (tr, Some f, a') \<longrightarrow>
      fifo_push b (Some f) None = Inr (if occupancy f < c then 1 else 0, Some f, b))"
proof (intro conjI impI)
  assume s: "session_p1 a c ops = Inr (tr, Some f, a')"
  from session_p1_counts [OF s] have i: "inv_p1 f" and sz: "size_f f = c" by simp_all
  have "fifo_push_p1 b (Some f) None = Inr (size_f f - fifo_filled (Some f), Some f, b)"
    by (rule fifo_push_p1_null)
  then show "fifo_push_p1 b (Some f) None = Inr (c - occupancy f, Some f, b)"
    by (simp only: sz inv_p1_filled [OF i] inv_p1_occupancy [OF i])
next
  assume s: "session a c ops = Inr (tr, Some f, a')"
  from session_inv [OF s] have i: "inv f" and sz: "size_f f = c" by simp_all
  from i show "fifo_push b (Some f) None = Inr (if occupancy f < c then 1 else 0, Some f, b)"
  proof (cases rule: inv_cases)
    case zero
    then show ?thesis using sz push_fifo0 [of b None]
      by (simp add: occupancy_fifo0 del: fifo_push.simps) (simp add: fifo0_def)
  next
    case pos
    from push_query [OF pos, of b] show ?thesis
      by (simp only: sz rep_occupancy [OF pos])
  qed
qed

theorem push_null_query_witness:
  "fifo_push_p1 [] (Some \<lparr>size_f = 2, empty_f = 0, produce = 1, consume = 0,
                           contents = [Some ''a'', None]\<rparr>) None =
     Inr (1, Some \<lparr>size_f = 2, empty_f = 0, produce = 1, consume = 0,
                   contents = [Some ''a'', None]\<rparr>, []) \<and>
   fifo_push [] (Some \<lparr>size_f = 2, empty_f = 0, produce = 1, consume = 0,
                        contents = [Some ''a'', None]\<rparr>) None =
     Inr (1, Some \<lparr>size_f = 2, empty_f = 0, produce = 1, consume = 0,
                   contents = [Some ''a'', None]\<rparr>, [])"
proof -
  let ?f = "\<lparr>size_f = 2, empty_f = 0, produce = 1, consume = 0, contents = [Some ''a'', None]\<rparr>"
  have s1: "session_p1 [True, True] 2 [Push (Some ''a'')] =
      Inr ([(Push (Some ''a''), PushRet 2)], Some ?f, [])"
    by (simp add: fifo_eval numeral_2_eq_2)
  have s2: "session [True, True] 2 [Push (Some ''a'')] =
      Inr ([(Push (Some ''a''), PushRet 1)], Some ?f, [])"
    by (simp add: fifo_eval numeral_2_eq_2)
  have o: "occupancy ?f = 1" by (simp add: occupancy_def)
  from push_null_query [of "[True, True]" 2 "[Push (Some ''a'')]" _ ?f "[]" "[]"] s1 s2 o
  show ?thesis by (simp del: fifo_push.simps fifo_push_p1.simps)
qed

text \<open>
  C9 as stated fails in part_002: on the empty buffer of capacity 2 the query returns 1,
  and the free space is 2.
\<close>

theorem push_null_query_counterexample:
  "fifo_new [True] 2 =
     (Some \<lparr>size_f = 2, empty_f = 1, produce = 0, consume = 0, contents = [None, None]\<rparr>, []) \<and>
   fifo_push [] (Some \<lparr>size_f = 2, empty_f = 1, produce = 0, consume = 0,
                        contents = [None, None]\<rparr>) None =
     Inr (1, Some \<lparr>size_f = 2, empty_f = 1, produce = 0, consume = 0,
                   contents = [None, None]\<rparr>, []) \<and>
   size_f \<lparr>size_f = 2, empty_f = 1, produce = 0, consume = 0, contents = [None, None]\<rparr> -
   occupancy \<lparr>size_f = 2, empty_f = 1, produce = 0, consume = 0, contents = [None, None]\<rparr> = 2"
  by (simp add: fifo_eval numeral_2_eq_2)

section \<open>Allocation failure in push\<close>

text \<open>
  What part_002 does when \<open>calloc\<close> fails inside a push, in every reachable state. The
  allocation is attempted only when a slot is free. The push then leaves every field and
  slot as it was, and returns the value of \<open>space\<close>, which is 1 there: the value the
  same push returns when \<open>calloc\<close> succeeds and the string is stored.
\<close>

lemma push_nomem_reachable:
  assumes "session a c ops = Inr (tr, Some f, a')" and "occupancy f < c"
    and "calloc b = (False, b')"
  shows "fifo_push b (Some f) (Some s) = Inr (1, Some f, b') \<and>
         fifo_push (True # b') (Some f) (Some s) = Inr (1, Some (stored f s), b')"
proof -
  from session_inv [OF assms(1)] have i: "inv f" and sz: "size_f f = c" by simp_all
  from i show ?thesis
  proof (cases rule: inv_cases)
    case zero
    then show ?thesis using assms(2) sz by (simp add: fifo0_def occupancy_def)
  next
    case pos
    have room: "int (length (queue f)) < size_f f"
      using rep_occupancy [OF pos] assms(2) sz by simp
    have "fifo_push (True # b') (Some f) (Some s) = Inr (1, Some (stored f s), b')"
      by (rule push_stores [OF pos room]) simp
    with push_nomem [OF pos room assms(3)] show ?thesis by simp
  qed
qed

text \<open>
  C10 at the empty buffer \<open>fifo_new(1)\<close> of part_002, pushing \<open>"a"\<close> while \<open>calloc\<close>
  fails. The buffer is left as it was, as C10 says. But the push returns 1, the value it
  returns when \<open>calloc\<close> succeeds and the string is stored, where C10 asks for a failure
  value that can be told from success, as \<open>fifo_new\<close> gives one (NULL) when its
  \<open>calloc\<close> fails. The doc comment of \<open>fifo_push\<close> ties a successful call to a stored
  copy; here nothing is stored and the call looks successful.
\<close>

theorem push_alloc_failure_returns_success:
  "fifo_new [True] 1 =
     (Some \<lparr>size_f = 1, empty_f = 1, produce = 0, consume = 0, contents = [None]\<rparr>, []) \<and>
   fifo_new [False] 1 = (None, []) \<and>
   fifo_push [False] (Some \<lparr>size_f = 1, empty_f = 1, produce = 0, consume = 0, contents = [None]\<rparr>)
     (Some ''a'') =
     Inr (1, Some \<lparr>size_f = 1, empty_f = 1, produce = 0, consume = 0, contents = [None]\<rparr>, []) \<and>
   fifo_push [True] (Some \<lparr>size_f = 1, empty_f = 1, produce = 0, consume = 0, contents = [None]\<rparr>)
     (Some ''a'') =
     Inr (1, Some \<lparr>size_f = 1, empty_f = 0, produce = 0, consume = 0, contents = [Some ''a'']\<rparr>, [])"
  by (simp add: fifo_new_def Let_def slot_ok_def str_cpy_chars NUL_def smod_nonneg)

end
